theory Spec2Isabelle
  imports Main "HOL-Library.Multiset"
begin

section \<open>lexicographicSortSchema: the sorting helpers\<close>

text \<open>
  The development follows \<^verbatim>\<open>src/utilities/lexicographicSortSchema.js\<close>.

  Two facilities of the language are used by the file and are modelled here as the
  ECMAScript standard describes them.

  \<^item> \<^verbatim>\<open>key1.localeCompare(key2, compareOptions?.locales, compareOptions?.options)\<close>
    is a function of the two strings once \<^verbatim>\<open>compareOptions\<close> is fixed. It is a parameter
    \<open>lc\<close> of every function below: \<open>lc key1 key2\<close> is negative, zero or positive.
    What the theorems need of it is that it is a consistent comparator in the sense of
    the standard (\<open>consistent\<close> below).
  \<^item> \<^verbatim>\<open>Array.prototype.sort\<close> with a comparator is a stable sort (ECMAScript 2019 and
    later). It is modelled by insertion from the right, which is stable: an element is
    placed before the first element of the sorted rest that it does not follow. For a
    consistent comparator every stable sort returns the same array; for any other the
    standard leaves the order to the implementation.
\<close>

type_synonym 'a comparator = "'a \<Rightarrow> 'a \<Rightarrow> int"

definition consistent :: "'a comparator \<Rightarrow> bool" where
  "consistent c \<longleftrightarrow>
     (\<forall>a b. (c a b < 0) = (0 < c b a)) \<and>
     (\<forall>a b d. c a b \<le> 0 \<longrightarrow> c b d \<le> 0 \<longrightarrow> c a d \<le> 0)"

fun sort_insert :: "'a comparator \<Rightarrow> 'a \<Rightarrow> 'a list \<Rightarrow> 'a list" where
  "sort_insert c x [] = [x]"
| "sort_insert c x (y # ys) = (if c x y \<le> 0 then x # y # ys else y # sort_insert c x ys)"

fun array_sort :: "'a comparator \<Rightarrow> 'a list \<Rightarrow> 'a list" where
  "array_sort c [] = []"
| "array_sort c (x # xs) = sort_insert c x (array_sort c xs)"

text \<open>
  \<^verbatim>\<open>sortBy(array, mapToKey, compareOptions)\<close>: \<^verbatim>\<open>array.slice().sort(...)\<close>, comparing the
  keys of the two objects with \<^verbatim>\<open>localeCompare\<close>. On values, \<^verbatim>\<open>slice\<close> is the identity.
\<close>

definition sortBy :: "'a list \<Rightarrow> ('a \<Rightarrow> string) \<Rightarrow> string comparator \<Rightarrow> 'a list" where
  "sortBy array mapToKey lc =
     array_sort (\<lambda>obj1 obj2. let key1 = mapToKey obj1; key2 = mapToKey obj2 in lc key1 key2) array"

text \<open>The order the output is meant to have: names never decrease from left to right.\<close>

definition ordered :: "string comparator \<Rightarrow> string list \<Rightarrow> bool" where
  "ordered lc ns = sorted_wrt (\<lambda>a b. lc a b \<le> 0) ns"

subsection \<open>A comparator to run the functions with\<close>

text \<open>
  Comparison by code points, and the same after folding ASCII letters to lower case (a
  comparator under which distinct names tie, as a collation of sensitivity
  \<^verbatim>\<open>base\<close> or \<^verbatim>\<open>accent\<close> does).
\<close>

fun codePointCompare :: "string comparator" where
  "codePointCompare [] [] = 0"
| "codePointCompare [] (y # ys) = - 1"
| "codePointCompare (x # xs) [] = 1"
| "codePointCompare (x # xs) (y # ys) =
     (if (of_char x :: nat) < of_char y then - 1
      else if (of_char y :: nat) < of_char x then 1
      else codePointCompare xs ys)"



section \<open>Objects used as maps\<close>

text \<open>
  An \<^verbatim>\<open>ObjMap\<close> is an object created with \<^verbatim>\<open>Object.create(null)\<close>: it has own
  properties only. It is modelled by the list of its properties in the order in which
  \<^verbatim>\<open>Object.keys\<close> and \<^verbatim>\<open>Object.values\<close> enumerate them. An assignment
  \<^verbatim>\<open>map[key] = v\<close> replaces the value of a property that exists and keeps its place;
  a new property whose key is an array index (the canonical decimal form of an integer
  below \<open>2^32 - 1\<close>) is enumerated among the array indices, in ascending numeric order
  and before every other key; any other new property is enumerated last.
\<close>

type_synonym 'v ObjMap = "(string \<times> 'v) list"

definition isDigit :: "char \<Rightarrow> bool" where
  "isDigit ch = (48 \<le> (of_char ch :: nat) \<and> (of_char ch :: nat) \<le> 57)"

text \<open>
  An array index has no leading zero, so its value is at most \<open>2^32 - 2 = 4294967294\<close>
  exactly when it has fewer than ten digits, or ten digits that do not follow
  \<^verbatim>\<open>4294967294\<close> digit by digit; and one array index is numerically below another exactly
  when it is shorter, or as long and before it digit by digit.
\<close>

definition isArrayIndex :: "string \<Rightarrow> bool" where
  "isArrayIndex k =
     (k \<noteq> [] \<and> list_all isDigit k \<and> (length k = 1 \<or> hd k \<noteq> CHR ''0'') \<and>
      (length k < 10 \<or> (length k = 10 \<and> codePointCompare k ''4294967294'' \<le> 0)))"

definition indexLess :: "string \<Rightarrow> string \<Rightarrow> bool" where
  "indexLess k' k = (length k' < length k \<or> (length k' = length k \<and> codePointCompare k' k < 0))"

fun insertIndexKey :: "string \<Rightarrow> 'v \<Rightarrow> 'v ObjMap \<Rightarrow> 'v ObjMap" where
  "insertIndexKey k v [] = [(k, v)]"
| "insertIndexKey k v ((k', v') # m) =
     (if isArrayIndex k' \<and> indexLess k' k
      then (k', v') # insertIndexKey k v m
      else (k, v) # (k', v') # m)"

definition setProperty :: "'v ObjMap \<Rightarrow> string \<Rightarrow> 'v \<Rightarrow> 'v ObjMap" where
  "setProperty m k v =
     (if k \<in> fst ` set m then map (\<lambda>(k', v'). if k' = k then (k', v) else (k', v')) m
      else if isArrayIndex k then insertIndexKey k v m
      else m @ [(k, v)])"

definition objectKeys :: "'v ObjMap \<Rightarrow> string list" where
  "objectKeys m = map fst m"

definition objectValues :: "'v ObjMap \<Rightarrow> 'v list" where
  "objectValues m = map snd m"

section \<open>Errors\<close>

text \<open>
  The file raises in two ways: \<^verbatim>\<open>invariant(false, ...)\<close> at the end of
  \<^verbatim>\<open>sortNamedType\<close>, and the \<^verbatim>\<open>TypeError\<close> of the language when a property of
  \<^verbatim>\<open>undefined\<close> is read (\<^verbatim>\<open>type.name\<close> in \<^verbatim>\<open>replaceNamedType\<close> and in the key
  function of \<^verbatim>\<open>sortByName\<close>). The constructors of the list and non-null wrappers,
  which \<^verbatim>\<open>replaceType\<close> calls, raise the same invariant violation when they are given
  \<^verbatim>\<open>undefined\<close>. A function that can raise returns \<open>error + 'a\<close>.
\<close>

datatype error = TypeError | InvariantViolation string

fun bindE :: "error + 'a \<Rightarrow> ('a \<Rightarrow> error + 'b) \<Rightarrow> error + 'b" where
  "bindE (Inl e) f = Inl e"
| "bindE (Inr x) f = f x"

fun mapE :: "('a \<Rightarrow> error + 'b) \<Rightarrow> 'a list \<Rightarrow> error + 'b list" where
  "mapE f [] = Inr []"
| "mapE f (x # xs) = bindE (f x) (\<lambda>y. bindE (mapE f xs) (\<lambda>ys. Inr (y # ys)))"

section \<open>sortObjMap and sortByName\<close>

text \<open>
  \<^verbatim>\<open>sortObjMap(map, sortValueFn, compareOptions)\<close>. The loop runs over the sorted keys;
  \<^verbatim>\<open>map[key]\<close> reads a key that \<^verbatim>\<open>Object.keys(map)\<close> returned, so the property is
  always found (the branch \<open>None\<close> below is never taken on a list with the keys it was
  asked for). \<^verbatim>\<open>sortValueFn\<close> is optional.
\<close>

fun sortObjMap_loop ::
  "'a ObjMap \<Rightarrow> ('a \<Rightarrow> error + 'a) option \<Rightarrow> string list \<Rightarrow> 'a ObjMap \<Rightarrow> error + 'a ObjMap" where
  "sortObjMap_loop m sortValueFn [] sortedMap = Inr sortedMap"
| "sortObjMap_loop m sortValueFn (key # keys) sortedMap =
     (case map_of m key of
        None \<Rightarrow> Inl TypeError
      | Some val \<Rightarrow>
          bindE (case sortValueFn of Some f \<Rightarrow> f val | None \<Rightarrow> Inr val)
            (\<lambda>v. sortObjMap_loop m sortValueFn keys (setProperty sortedMap key v)))"

definition sortObjMap ::
  "'a ObjMap \<Rightarrow> ('a \<Rightarrow> error + 'a) option \<Rightarrow> string comparator \<Rightarrow> error + 'a ObjMap" where
  "sortObjMap m sortValueFn lc =
     (let sortedKeys = sortBy (objectKeys m) (\<lambda>x. x) lc
      in sortObjMap_loop m sortValueFn sortedKeys [])"

text \<open>
  \<^verbatim>\<open>sortByName(array, compareOptions)\<close>: the key of an object is its \<^verbatim>\<open>name\<close>. The
  way the name of an element is read is the parameter \<open>nameOf\<close> (a field of a
  directive; for a type, the name of the object at that address).
\<close>

definition sortByName :: "'a list \<Rightarrow> ('a \<Rightarrow> string) \<Rightarrow> string comparator \<Rightarrow> 'a list" where
  "sortByName array nameOf lc = sortBy array (\<lambda>obj. nameOf obj) lc"

section \<open>The schema as the file reads it\<close>

text \<open>
  Named types are objects with an identity: two fields refer to the same type when they
  hold the same object. The objects live in a heap, a list indexed by address; a new
  object is appended. A reference always points to an object (an address is below the
  length of the heap): the theorems assume it of their input, as part of \<open>wellFormed\<close>.
  Everything else is a value. The data types are parametric in what
  a reference to a named type is: an address (\<open>addr\<close>) in the program, and the name of
  the type in the by-name reading of a schema used to state the properties.

  \<^item> A type reference is a named type, a list or non-null wrapper, or \<^verbatim>\<open>undefined\<close>
    (what \<^verbatim>\<open>typeMap[type.name]\<close> gives for a name that is not a key).
  \<^item> An argument and an input field have the same shape: the \<^verbatim>\<open>type\<close> and the rest of
    the config (\<^verbatim>\<open>...arg\<close>, copied as it is).
  \<^item> The kind of a named type is what the predicates \<^verbatim>\<open>isScalarType\<close>, ...,
    \<^verbatim>\<open>isInputObjectType\<close> of the type library recognise, with what \<^verbatim>\<open>toConfig()\<close>
    returns for it; \<open>Unrecognised\<close> is a value none of the predicates accepts.
  \<^item> \<^verbatim>\<open>isIntrospectionType\<close> is defined in \<^verbatim>\<open>type/introspection\<close>, which is not part of
    the file: it is a parameter of the functions that use it.
  \<^item> The constructors \<^verbatim>\<open>GraphQLObjectType\<close>, ..., \<^verbatim>\<open>GraphQLSchema\<close> belong to the type
    library: the model records the config they are called with. The constructors of the
    wrappers, \<^verbatim>\<open>GraphQLList\<close> and \<^verbatim>\<open>GraphQLNonNull\<close>, check what they are given: see
    \<open>newGraphQLList\<close> and \<open>newGraphQLNonNull\<close> below.
\<close>

type_synonym addr = nat

datatype 'r type_ref = Named 'r | ListT "'r type_ref" | NonNullT "'r type_ref" | Undefined

datatype 'r input_value_config =
  InputValueConfig (iv_type: "'r type_ref") (iv_rest: string)

datatype 'r field_config =
  FieldConfig (field_type: "'r type_ref") (field_args: "'r input_value_config ObjMap")
    (field_rest: string)

datatype 'r type_kind =
    ScalarType
  | ObjectType "'r option list" "'r field_config ObjMap"
  | InterfaceType "'r option list" "'r field_config ObjMap"
  | UnionType "'r option list"
  | EnumType "string ObjMap"
  | InputObjectType "'r input_value_config ObjMap"
  | Unrecognised

datatype 'r named_type =
  NamedType (name: string) (kind: "'r type_kind") (type_rest: string)

datatype 'r directive =
  Directive (directive_name: string) (locations: "string list")
    (directive_args: "'r input_value_config ObjMap") (directive_rest: string)

datatype 'r schema_config =
  SchemaConfig (schema_types: "'r list") (directives: "'r directive list")
    (query: "'r option") (mutation: "'r option") (subscription: "'r option")
    (schema_rest: string)

type_synonym heap = "addr named_type list"

definition typeName :: "heap \<Rightarrow> addr \<Rightarrow> string" where
  "typeName h a = name (h ! a)"

definition isScalarType :: "'r named_type \<Rightarrow> bool" where
  "isScalarType t = (case kind t of ScalarType \<Rightarrow> True | _ \<Rightarrow> False)"

section \<open>The closures of lexicographicSortSchema\<close>

text \<open>
  The inner functions close over \<^verbatim>\<open>compareOptions\<close> and \<^verbatim>\<open>typeMap\<close>; here they take
  them as arguments (\<open>lc\<close> for the comparison, \<open>h\<close> for the heap in which \<^verbatim>\<open>type.name\<close>
  is read).
\<close>

definition replaceNamedType :: "heap \<Rightarrow> addr ObjMap \<Rightarrow> addr \<Rightarrow> addr option" where
  "replaceNamedType h typeMap ty = map_of typeMap (typeName h ty)"

text \<open>
  Modelled from the spec: the constructors \<^verbatim>\<open>GraphQLList\<close> and \<^verbatim>\<open>GraphQLNonNull\<close> of
  \<^verbatim>\<open>type/definition\<close>, which is not part of the file. A wrapper holds the type reference
  it is constructed with (section 3, type reference; section 4.3, a wrapped reference is
  rewrapped identically). The constructors of the library assert that they are given a
  type (\<^verbatim>\<open>assertType\<close>, \<^verbatim>\<open>assertNullableType\<close>): given \<^verbatim>\<open>undefined\<close> they raise an
  invariant violation, with the message kept here. The assertion of \<^verbatim>\<open>GraphQLNonNull\<close>
  also refuses a non-null wrapper; a type reference of the input was built by the same
  constructors, so it holds no non-null wrapper directly inside another, and
  \<^verbatim>\<open>replaceType\<close> keeps the wrappers as they are: that case is not distinguished here.
\<close>

definition newGraphQLList :: "'r type_ref \<Rightarrow> error + 'r type_ref" where
  "newGraphQLList ofType =
     (case ofType of
        Undefined \<Rightarrow> Inl (InvariantViolation ''Expected undefined to be a GraphQL type.'')
      | _ \<Rightarrow> Inr (ListT ofType))"

definition newGraphQLNonNull :: "'r type_ref \<Rightarrow> error + 'r type_ref" where
  "newGraphQLNonNull ofType =
     (case ofType of
        Undefined \<Rightarrow> Inl (InvariantViolation ''Expected undefined to be a GraphQL nullable type.'')
      | _ \<Rightarrow> Inr (NonNullT ofType))"

text \<open>
  \<^verbatim>\<open>replaceType(type)\<close>: a wrapper is constructed again around the replaced inner type;
  anything else goes to \<^verbatim>\<open>replaceNamedType\<close>, which reads \<^verbatim>\<open>typeMap[type.name]\<close> and
  returns what it finds, \<^verbatim>\<open>undefined\<close> when the name is not a key.
\<close>

fun replaceType :: "heap \<Rightarrow> addr ObjMap \<Rightarrow> addr type_ref \<Rightarrow> error + addr type_ref" where
  "replaceType h typeMap (ListT ofType) =
     bindE (replaceType h typeMap ofType) newGraphQLList"
| "replaceType h typeMap (NonNullT ofType) =
     bindE (replaceType h typeMap ofType) newGraphQLNonNull"
| "replaceType h typeMap (Named ty) =
     Inr (case replaceNamedType h typeMap ty of None \<Rightarrow> Undefined | Some t \<Rightarrow> Named t)"
| "replaceType h typeMap Undefined = Inl TypeError"

definition replaceMaybeType :: "heap \<Rightarrow> addr ObjMap \<Rightarrow> addr option \<Rightarrow> addr option" where
  "replaceMaybeType h typeMap maybeType =
     (case maybeType of None \<Rightarrow> None | Some ty \<Rightarrow> replaceNamedType h typeMap ty)"

definition sortArgs ::
  "string comparator \<Rightarrow> heap \<Rightarrow> addr ObjMap \<Rightarrow> addr input_value_config ObjMap
     \<Rightarrow> error + addr input_value_config ObjMap" where
  "sortArgs lc h typeMap args =
     sortObjMap args
       (Some (\<lambda>arg. bindE (replaceType h typeMap (iv_type arg))
                (\<lambda>t. Inr (InputValueConfig t (iv_rest arg)))))
       lc"

definition sortFields ::
  "string comparator \<Rightarrow> heap \<Rightarrow> addr ObjMap \<Rightarrow> addr field_config ObjMap
     \<Rightarrow> error + addr field_config ObjMap" where
  "sortFields lc h typeMap fieldsMap =
     sortObjMap fieldsMap
       (Some (\<lambda>field. bindE (replaceType h typeMap (field_type field))
                (\<lambda>t. bindE (sortArgs lc h typeMap (field_args field))
                (\<lambda>as. Inr (FieldConfig t as (field_rest field))))))
       lc"

definition sortInputFields ::
  "string comparator \<Rightarrow> heap \<Rightarrow> addr ObjMap \<Rightarrow> addr input_value_config ObjMap
     \<Rightarrow> error + addr input_value_config ObjMap" where
  "sortInputFields lc h typeMap fieldsMap =
     sortObjMap fieldsMap
       (Some (\<lambda>field. bindE (replaceType h typeMap (iv_type field))
                (\<lambda>t. Inr (InputValueConfig t (iv_rest field)))))
       lc"

text \<open>
  \<^verbatim>\<open>sortTypes(arr)\<close>: \<^verbatim>\<open>sortByName(arr, compareOptions).map(replaceNamedType)\<close>. Both steps
  read \<^verbatim>\<open>.name\<close> of every element, so an element that is \<^verbatim>\<open>undefined\<close> raises.
\<close>

definition sortTypes ::
  "string comparator \<Rightarrow> heap \<Rightarrow> addr ObjMap \<Rightarrow> addr option list \<Rightarrow> error + addr option list" where
  "sortTypes lc h typeMap arr =
     (case those arr of
        None \<Rightarrow> Inl TypeError
      | Some objs \<Rightarrow> Inr (map (replaceNamedType h typeMap) (sortByName objs (typeName h) lc)))"

definition sortDirective ::
  "string comparator \<Rightarrow> heap \<Rightarrow> addr ObjMap \<Rightarrow> addr directive \<Rightarrow> error + addr directive" where
  "sortDirective lc h typeMap directive =
     (let locs = sortBy (locations directive) (\<lambda>x. x) lc
      in bindE (sortArgs lc h typeMap (directive_args directive))
           (\<lambda>as. Inr (Directive (directive_name directive) locs as (directive_rest directive))))"

text \<open>
  \<^verbatim>\<open>sortNamedType(type)\<close>. A scalar or introspection type is returned as it is: the same
  object. Otherwise a new object is constructed, and the alternative after the last
  \<^verbatim>\<open>if\<close> is the invariant. The constructors take \<^verbatim>\<open>interfaces\<close>, \<^verbatim>\<open>fields\<close> and
  \<^verbatim>\<open>types\<close> as thunks, which read \<^verbatim>\<open>typeMap\<close> when they are called: the new object is
  a function of the \<^verbatim>\<open>typeMap\<close> it will be read with. The values of an enum are sorted
  at once. The objects constructed so far are the list \<open>pending\<close>; the address of a new
  object is the next free one after the heap and the pending objects. The message of the
  invariant is kept without its \<^verbatim>\<open>inspect(type)\<close> part.
\<close>

type_synonym thunk = "addr ObjMap \<Rightarrow> error + addr named_type"

definition sortNamedType ::
  "string comparator \<Rightarrow> (addr named_type \<Rightarrow> bool) \<Rightarrow> heap \<Rightarrow> thunk list \<Rightarrow> addr
     \<Rightarrow> error + (addr \<times> thunk list)" where
  "sortNamedType lc isIntrospectionType h pending a =
     (let ty = h ! a;
          new = (\<lambda>th. Inr (length h + length pending, pending @ [th]))
      in
      if isScalarType ty \<or> isIntrospectionType ty then Inr (a, pending)
      else case kind ty of
        ObjectType ifaces flds \<Rightarrow>
          new (\<lambda>typeMap.
            bindE (sortTypes lc h typeMap ifaces) (\<lambda>ifs.
            bindE (sortFields lc h typeMap flds) (\<lambda>fs.
            Inr (NamedType (name ty) (ObjectType ifs fs) (type_rest ty)))))
      | InterfaceType ifaces flds \<Rightarrow>
          new (\<lambda>typeMap.
            bindE (sortTypes lc h typeMap ifaces) (\<lambda>ifs.
            bindE (sortFields lc h typeMap flds) (\<lambda>fs.
            Inr (NamedType (name ty) (InterfaceType ifs fs) (type_rest ty)))))
      | UnionType members \<Rightarrow>
          new (\<lambda>typeMap.
            bindE (sortTypes lc h typeMap members) (\<lambda>ts.
            Inr (NamedType (name ty) (UnionType ts) (type_rest ty))))
      | EnumType vals \<Rightarrow>
          bindE (sortObjMap vals None lc) (\<lambda>vs.
            new (\<lambda>typeMap. Inr (NamedType (name ty) (EnumType vs) (type_rest ty))))
      | InputObjectType flds \<Rightarrow>
          new (\<lambda>typeMap.
            bindE (sortInputFields lc h typeMap flds) (\<lambda>fs.
            Inr (NamedType (name ty) (InputObjectType fs) (type_rest ty))))
      | ScalarType \<Rightarrow> Inr (a, pending)
      | Unrecognised \<Rightarrow> Inl (InvariantViolation ''Unexpected type''))"

text \<open>
  Modelled from the spec: \<^verbatim>\<open>keyValMap(list, keyFn, valFn)\<close> of \<^verbatim>\<open>jsutils/keyValMap\<close>, which
  is not part of the file. For each element in order it inserts \<open>keyFn item \<mapsto> valFn item\<close>
  into a map that starts empty (section 4.1, step 2). \<open>valFn\<close> constructs objects, so
  the store it allocates in is passed along.
\<close>

fun keyValMap_from ::
  "'a list \<Rightarrow> ('a \<Rightarrow> string) \<Rightarrow> ('s \<Rightarrow> 'a \<Rightarrow> error + ('v \<times> 's)) \<Rightarrow> 'v ObjMap \<Rightarrow> 's
     \<Rightarrow> error + ('v ObjMap \<times> 's)" where
  "keyValMap_from [] keyFn valFn m s = Inr (m, s)"
| "keyValMap_from (item # items) keyFn valFn m s =
     bindE (valFn s item) (\<lambda>(v, s'). keyValMap_from items keyFn valFn (setProperty m (keyFn item) v) s')"

definition keyValMap ::
  "'a list \<Rightarrow> ('a \<Rightarrow> string) \<Rightarrow> ('s \<Rightarrow> 'a \<Rightarrow> error + ('v \<times> 's)) \<Rightarrow> 's
     \<Rightarrow> error + ('v ObjMap \<times> 's)" where
  "keyValMap list keyFn valFn s = keyValMap_from list keyFn valFn [] s"

text \<open>
  \<^verbatim>\<open>lexicographicSortSchema(schema, compareOptions)\<close>. The input is the heap and
  \<^verbatim>\<open>schema.toConfig()\<close>; the result is the heap with the new objects and the config
  \<^verbatim>\<open>new GraphQLSchema\<close> is called with. The argument of the constructor is evaluated
  first (the directives are sorted then); the constructor reads the fields, interfaces
  and members of every type, which calls the thunks, with the finished \<^verbatim>\<open>typeMap\<close>.
\<close>

definition lexicographicSortSchema ::
  "string comparator \<Rightarrow> (addr named_type \<Rightarrow> bool) \<Rightarrow> heap \<Rightarrow> addr schema_config
     \<Rightarrow> error + (heap \<times> addr schema_config)" where
  "lexicographicSortSchema lc isIntrospectionType h schemaConfig =
     bindE (keyValMap (sortByName (schema_types schemaConfig) (typeName h) lc) (typeName h)
              (sortNamedType lc isIntrospectionType h) [])
       (\<lambda>(typeMap, pending).
          bindE (mapE (sortDirective lc h typeMap)
                   (sortByName (directives schemaConfig) directive_name lc)) (\<lambda>ds.
          bindE (mapE (\<lambda>th. th typeMap) pending) (\<lambda>objs.
          Inr (h @ objs,
               SchemaConfig (objectValues typeMap) ds
                 (replaceMaybeType h typeMap (query schemaConfig))
                 (replaceMaybeType h typeMap (mutation schemaConfig))
                 (replaceMaybeType h typeMap (subscription schemaConfig))
                 (schema_rest schemaConfig)))))"

section \<open>Reading a schema by name\<close>

text \<open>
  The by-name reading of a schema replaces every reference to a named type by the name
  of the object it points to: it is what a printer of the schema shows, and it is how the
  properties of the output are stated (the order of every collection, the names in it,
  the type each field and argument refers to).
\<close>

definition viewType :: "heap \<Rightarrow> addr named_type \<Rightarrow> string named_type" where
  "viewType h t = map_named_type (typeName h) t"

definition viewDirective :: "heap \<Rightarrow> addr directive \<Rightarrow> string directive" where
  "viewDirective h d = map_directive (typeName h) d"

definition viewSchema ::
  "heap \<Rightarrow> addr schema_config
     \<Rightarrow> string named_type list \<times> string directive list \<times> string option \<times> string option \<times> string option" where
  "viewSchema h s =
     (map (\<lambda>a. viewType h (h ! a)) (schema_types s),
      map (viewDirective h) (directives s),
      map_option (typeName h) (query s),
      map_option (typeName h) (mutation s),
      map_option (typeName h) (subscription s))"

text \<open>\<^verbatim>\<open>schema.getType(name)\<close>: the instance the schema holds under a name.\<close>

definition getType :: "heap \<Rightarrow> addr schema_config \<Rightarrow> string \<Rightarrow> addr option" where
  "getType h s n = find (\<lambda>a. typeName h a = n) (schema_types s)"

text \<open>
  What the specification asks of the output, on the by-name reading (sections 4.1 and
  4.2): every collection sorted by name, nothing else changed. \<open>optName\<close> is the name of
  an entry of an interface or member list.
\<close>

definition optName :: "string option \<Rightarrow> string" where
  "optName x = (case x of Some n \<Rightarrow> n | None \<Rightarrow> [])"

definition specObjMap :: "string comparator \<Rightarrow> 'v ObjMap \<Rightarrow> 'v ObjMap" where
  "specObjMap lc m = sortBy m fst lc"

definition specField :: "string comparator \<Rightarrow> 'r field_config \<Rightarrow> 'r field_config" where
  "specField lc f = FieldConfig (field_type f) (specObjMap lc (field_args f)) (field_rest f)"

definition specFields :: "string comparator \<Rightarrow> 'r field_config ObjMap \<Rightarrow> 'r field_config ObjMap" where
  "specFields lc m = map (\<lambda>(k, f). (k, specField lc f)) (specObjMap lc m)"

definition specKind :: "string comparator \<Rightarrow> string type_kind \<Rightarrow> string type_kind" where
  "specKind lc k =
     (case k of
        ScalarType \<Rightarrow> ScalarType
      | ObjectType ifs fs \<Rightarrow> ObjectType (sortBy ifs optName lc) (specFields lc fs)
      | InterfaceType ifs fs \<Rightarrow> InterfaceType (sortBy ifs optName lc) (specFields lc fs)
      | UnionType ts \<Rightarrow> UnionType (sortBy ts optName lc)
      | EnumType vs \<Rightarrow> EnumType (specObjMap lc vs)
      | InputObjectType fs \<Rightarrow> InputObjectType (specObjMap lc fs)
      | Unrecognised \<Rightarrow> Unrecognised)"

definition specType :: "string comparator \<Rightarrow> string named_type \<Rightarrow> string named_type" where
  "specType lc t = NamedType (name t) (specKind lc (kind t)) (type_rest t)"

definition specDirective :: "string comparator \<Rightarrow> 'r directive \<Rightarrow> 'r directive" where
  "specDirective lc d =
     Directive (directive_name d) (sortBy (locations d) (\<lambda>x. x) lc)
       (specObjMap lc (directive_args d)) (directive_rest d)"

text \<open>Every collection of a type or directive, read by name, is in order.\<close>

definition orderedFields :: "string comparator \<Rightarrow> 'r field_config ObjMap \<Rightarrow> bool" where
  "orderedFields lc m =
     (ordered lc (objectKeys m) \<and> list_all (\<lambda>f. ordered lc (objectKeys (field_args f))) (objectValues m))"

definition orderedKind :: "string comparator \<Rightarrow> string type_kind \<Rightarrow> bool" where
  "orderedKind lc k =
     (case k of
        ScalarType \<Rightarrow> True
      | ObjectType ifs fs \<Rightarrow> ordered lc (map optName ifs) \<and> orderedFields lc fs
      | InterfaceType ifs fs \<Rightarrow> ordered lc (map optName ifs) \<and> orderedFields lc fs
      | UnionType ts \<Rightarrow> ordered lc (map optName ts)
      | EnumType vs \<Rightarrow> ordered lc (objectKeys vs)
      | InputObjectType fs \<Rightarrow> ordered lc (objectKeys fs)
      | Unrecognised \<Rightarrow> True)"

definition orderedDirective :: "string comparator \<Rightarrow> 'r directive \<Rightarrow> bool" where
  "orderedDirective lc d = (ordered lc (locations d) \<and> ordered lc (objectKeys (directive_args d)))"

text \<open>
  Two types (two directives) hold the same names: each collection of the second is a
  rearrangement of the same collection of the first, and so are the arguments of the
  field of each name.
\<close>

definition sameFieldNames :: "'r field_config ObjMap \<Rightarrow> 's field_config ObjMap \<Rightarrow> bool" where
  "sameFieldNames m m' =
     (mset (map (\<lambda>(k, f). (k, mset (objectKeys (field_args f)))) m') =
      mset (map (\<lambda>(k, f). (k, mset (objectKeys (field_args f)))) m))"

definition sameNamesKind :: "string type_kind \<Rightarrow> string type_kind \<Rightarrow> bool" where
  "sameNamesKind k k' =
     (case (k, k') of
        (ScalarType, ScalarType) \<Rightarrow> True
      | (ObjectType ifs fs, ObjectType ifs' fs') \<Rightarrow> mset ifs' = mset ifs \<and> sameFieldNames fs fs'
      | (InterfaceType ifs fs, InterfaceType ifs' fs') \<Rightarrow> mset ifs' = mset ifs \<and> sameFieldNames fs fs'
      | (UnionType ts, UnionType ts') \<Rightarrow> mset ts' = mset ts
      | (EnumType vs, EnumType vs') \<Rightarrow> mset (objectKeys vs') = mset (objectKeys vs)
      | (InputObjectType fs, InputObjectType fs') \<Rightarrow> mset (objectKeys fs') = mset (objectKeys fs)
      | (Unrecognised, Unrecognised) \<Rightarrow> True
      | _ \<Rightarrow> False)"

definition sameNamesType :: "string named_type \<Rightarrow> string named_type \<Rightarrow> bool" where
  "sameNamesType t t' = (name t' = name t \<and> sameNamesKind (kind t) (kind t'))"

definition sameNamesDirective :: "'r directive \<Rightarrow> 's directive \<Rightarrow> bool" where
  "sameNamesDirective d d' =
     (directive_name d' = directive_name d \<and> mset (locations d') = mset (locations d) \<and>
      mset (objectKeys (directive_args d')) = mset (objectKeys (directive_args d)))"

section \<open>Well-formed schemas\<close>

text \<open>
  The input contract of section 6: the schema is self-contained (every type a rebuilt
  type, a directive or a root refers to is an object of the schema's type set, and no
  reference is \<^verbatim>\<open>undefined\<close>), names are unique within each collection, and no name is an
  array index (a GraphQL name starts with a letter or an underscore). A type that is
  passed through is only required to point into the heap.
\<close>

definition passes :: "(addr named_type \<Rightarrow> bool) \<Rightarrow> addr named_type \<Rightarrow> bool" where
  "passes isIntrospectionType t = (isScalarType t \<or> isIntrospectionType t)"

definition objMapOk :: "'v ObjMap \<Rightarrow> bool" where
  "objMapOk m = (distinct (objectKeys m) \<and> list_all (\<lambda>k. \<not> isArrayIndex k) (objectKeys m))"

primrec refOk :: "('r \<Rightarrow> bool) \<Rightarrow> 'r type_ref \<Rightarrow> bool" where
  "refOk P (Named b) = P b"
| "refOk P (ListT r) = refOk P r"
| "refOk P (NonNullT r) = refOk P r"
| "refOk P Undefined = False"

definition argsOk :: "('r \<Rightarrow> bool) \<Rightarrow> 'r input_value_config ObjMap \<Rightarrow> bool" where
  "argsOk P m = (objMapOk m \<and> list_all (\<lambda>a. refOk P (iv_type a)) (objectValues m))"

definition fieldsOk :: "('r \<Rightarrow> bool) \<Rightarrow> 'r field_config ObjMap \<Rightarrow> bool" where
  "fieldsOk P m =
     (objMapOk m \<and> list_all (\<lambda>f. refOk P (field_type f) \<and> argsOk P (field_args f)) (objectValues m))"

definition membersOk :: "('r \<Rightarrow> bool) \<Rightarrow> 'r option list \<Rightarrow> bool" where
  "membersOk P arr = list_all (\<lambda>x. case x of None \<Rightarrow> False | Some b \<Rightarrow> P b) arr"

definition kindOk :: "('r \<Rightarrow> bool) \<Rightarrow> 'r type_kind \<Rightarrow> bool" where
  "kindOk P k =
     (case k of
        ScalarType \<Rightarrow> True
      | ObjectType ifs fs \<Rightarrow> membersOk P ifs \<and> fieldsOk P fs
      | InterfaceType ifs fs \<Rightarrow> membersOk P ifs \<and> fieldsOk P fs
      | UnionType ts \<Rightarrow> membersOk P ts
      | EnumType vs \<Rightarrow> objMapOk vs
      | InputObjectType fs \<Rightarrow> argsOk P fs
      | Unrecognised \<Rightarrow> False)"

definition rootOk :: "('r \<Rightarrow> bool) \<Rightarrow> 'r option \<Rightarrow> bool" where
  "rootOk P x = (case x of None \<Rightarrow> True | Some b \<Rightarrow> P b)"

definition wellFormed :: "(addr named_type \<Rightarrow> bool) \<Rightarrow> heap \<Rightarrow> addr schema_config \<Rightarrow> bool" where
  "wellFormed isIntrospectionType h s =
     (let inSchema = (\<lambda>b. b \<in> set (schema_types s)) in
      list_all (\<lambda>a. a < length h) (schema_types s) \<and>
      distinct (map (typeName h) (schema_types s)) \<and>
      list_all (\<lambda>a. \<not> isArrayIndex (typeName h a)) (schema_types s) \<and>
      list_all (\<lambda>a. if passes isIntrospectionType (h ! a)
                     then pred_named_type (\<lambda>b. b < length h) (h ! a)
                     else kindOk inSchema (kind (h ! a))) (schema_types s) \<and>
      list_all (\<lambda>d. argsOk inSchema (directive_args d)) (directives s) \<and>
      rootOk inSchema (query s) \<and> rootOk inSchema (mutation s) \<and> rootOk inSchema (subscription s))"

text \<open>A helper to state what \<^verbatim>\<open>sortValueFn ? sortValueFn(value) : value\<close> returns.\<close>

definition applyFn :: "('a \<Rightarrow> error + 'a) option \<Rightarrow> 'a \<Rightarrow> error + 'a" where
  "applyFn sortValueFn v = (case sortValueFn of Some f \<Rightarrow> f v | None \<Rightarrow> Inr v)"

section \<open>Auxiliary notions for the proofs\<close>

text \<open>
  What a run of \<^verbatim>\<open>lexicographicSortSchema\<close> computes, in closed form.
  \<^item> \<open>construct\<close> is the object a call of \<^verbatim>\<open>sortNamedType\<close> constructs, as a function of
    the \<^verbatim>\<open>typeMap\<close> its thunks read.
  \<^item> \<open>sortedTypes\<close> are the types in the order \<^verbatim>\<open>keyValMap\<close> visits them; \<open>rebuilt\<close> are
    those that get a new object; \<open>assignAddrs\<close> lists the address \<^verbatim>\<open>sortNamedType\<close>
    returns for each: the type itself when it is passed through, the next free address
    otherwise (\<open>newAddrs\<close>, starting after the input heap); \<open>typeIndex\<close> is the
    \<^verbatim>\<open>typeMap\<close> that results.
  \<^item> \<open>resolves\<close> says that the index finds, for every type of a set, an object of the
    same name in the new heap; \<open>inIndex\<close> that an object is a value of the index.
  \<^item> \<open>isReplacement\<close> relates a type of the input to its replacement in the output: the
    same object, unchanged, for a type that is passed through; otherwise an object at a
    new address that reads, by name, as the input type with every collection sorted.
\<close>

definition resolves :: "heap \<Rightarrow> addr ObjMap \<Rightarrow> heap \<Rightarrow> (addr \<Rightarrow> bool) \<Rightarrow> bool" where
  "resolves h typeMap h' P =
     (\<forall>b. P b \<longrightarrow> (\<exists>b'. map_of typeMap (typeName h b) = Some b' \<and> typeName h' b' = typeName h b))"

definition inIndex :: "addr ObjMap \<Rightarrow> addr \<Rightarrow> bool" where
  "inIndex typeMap b = (b \<in> snd ` set typeMap)"

definition construct :: "string comparator \<Rightarrow> heap \<Rightarrow> addr named_type \<Rightarrow> thunk" where
  "construct lc h ty =
     (\<lambda>typeMap. case kind ty of
        ObjectType ifaces flds \<Rightarrow>
          bindE (sortTypes lc h typeMap ifaces) (\<lambda>ifs.
          bindE (sortFields lc h typeMap flds) (\<lambda>fs.
          Inr (NamedType (name ty) (ObjectType ifs fs) (type_rest ty))))
      | InterfaceType ifaces flds \<Rightarrow>
          bindE (sortTypes lc h typeMap ifaces) (\<lambda>ifs.
          bindE (sortFields lc h typeMap flds) (\<lambda>fs.
          Inr (NamedType (name ty) (InterfaceType ifs fs) (type_rest ty))))
      | UnionType members \<Rightarrow>
          bindE (sortTypes lc h typeMap members) (\<lambda>ts.
          Inr (NamedType (name ty) (UnionType ts) (type_rest ty)))
      | EnumType vals \<Rightarrow>
          bindE (sortObjMap vals None lc) (\<lambda>vs.
          Inr (NamedType (name ty) (EnumType vs) (type_rest ty)))
      | InputObjectType flds \<Rightarrow>
          bindE (sortInputFields lc h typeMap flds) (\<lambda>fs.
          Inr (NamedType (name ty) (InputObjectType fs) (type_rest ty)))
      | ScalarType \<Rightarrow> Inr ty
      | Unrecognised \<Rightarrow> Inr ty)"

fun assignAddrs :: "(addr named_type \<Rightarrow> bool) \<Rightarrow> heap \<Rightarrow> nat \<Rightarrow> addr list \<Rightarrow> addr list" where
  "assignAddrs isIntro h n [] = []"
| "assignAddrs isIntro h n (a # as) =
     (if passes isIntro (h ! a) then a # assignAddrs isIntro h n as
      else n # assignAddrs isIntro h (Suc n) as)"

definition rebuilt :: "(addr named_type \<Rightarrow> bool) \<Rightarrow> heap \<Rightarrow> addr list \<Rightarrow> addr list" where
  "rebuilt isIntro h as = filter (\<lambda>a. \<not> passes isIntro (h ! a)) as"

definition sortedTypes :: "string comparator \<Rightarrow> heap \<Rightarrow> addr schema_config \<Rightarrow> addr list" where
  "sortedTypes lc h s = sortByName (schema_types s) (typeName h) lc"

definition newAddrs ::
  "string comparator \<Rightarrow> (addr named_type \<Rightarrow> bool) \<Rightarrow> heap \<Rightarrow> addr schema_config \<Rightarrow> addr list" where
  "newAddrs lc isIntro h s = assignAddrs isIntro h (length h) (sortedTypes lc h s)"

definition typeIndex ::
  "string comparator \<Rightarrow> (addr named_type \<Rightarrow> bool) \<Rightarrow> heap \<Rightarrow> addr schema_config \<Rightarrow> addr ObjMap" where
  "typeIndex lc isIntro h s = zip (map (typeName h) (sortedTypes lc h s)) (newAddrs lc isIntro h s)"

definition isReplacement ::
  "string comparator \<Rightarrow> (addr named_type \<Rightarrow> bool) \<Rightarrow> heap \<Rightarrow> heap \<Rightarrow> addr \<Rightarrow> addr \<Rightarrow> bool" where
  "isReplacement lc isIntrospectionType h h' a a' =
     (if passes isIntrospectionType (h ! a) then a' = a \<and> h' ! a' = h ! a
      else length h \<le> a' \<and> a' < length h' \<and>
           viewType h' (h' ! a') = specType lc (viewType h (h ! a)))"

text \<open>
  The root of the output for a root of the input: absent when the input has none, and
  otherwise the replacement of the root type, which is the instance the output schema
  holds under the name of that type.
\<close>

definition rootReplaced ::
  "string comparator \<Rightarrow> (addr named_type \<Rightarrow> bool) \<Rightarrow> heap \<Rightarrow> heap \<Rightarrow> addr schema_config
     \<Rightarrow> addr option \<Rightarrow> addr option \<Rightarrow> bool" where
  "rootReplaced lc isIntrospectionType h h' s' r r' =
     (case r of
        None \<Rightarrow> r' = None
      | Some a \<Rightarrow>
          (\<exists>a'. r' = Some a' \<and> getType h' s' (typeName h a) = Some a' \<and>
                isReplacement lc isIntrospectionType h h' a a'))"

text \<open>
  \<^verbatim>\<open>getNamedType\<close>: the named type under the wrappers of a reference, if it is defined.
\<close>

primrec namedTypeOf :: "'r type_ref \<Rightarrow> 'r option" where
  "namedTypeOf (Named b) = Some b"
| "namedTypeOf (ListT r) = namedTypeOf r"
| "namedTypeOf (NonNullT r) = namedTypeOf r"
| "namedTypeOf Undefined = None"

text \<open>
  A type of the schema refers to a type whose name is absent from the schema's type set.
\<close>

definition namesAbsentType :: "heap \<Rightarrow> addr schema_config \<Rightarrow> bool" where
  "namesAbsentType h s =
     (\<exists>a\<in>set (schema_types s). \<exists>b\<in>set_named_type (h ! a).
        typeName h b \<notin> typeName h ` set (schema_types s))"

text \<open>
  The type references \<^verbatim>\<open>lexicographicSortSchema\<close> hands to \<^verbatim>\<open>replaceType\<close>, each of
  which may stand under list and non-null wrappers: the type of every field, of every
  argument of a field and of every input field of a type that is not passed through, and
  the type of every argument of a directive. \<open>propertyValues\<close> are the values
  \<^verbatim>\<open>map[key]\<close> for the keys of a map.
\<close>

definition propertyValues :: "'v ObjMap \<Rightarrow> 'v list" where
  "propertyValues m = List.map_filter (map_of m) (objectKeys m)"

definition argTypes :: "'r input_value_config ObjMap \<Rightarrow> 'r type_ref list" where
  "argTypes args = map iv_type (propertyValues args)"

definition fieldTypes :: "'r field_config ObjMap \<Rightarrow> 'r type_ref list" where
  "fieldTypes flds =
     concat (map (\<lambda>field. field_type field # argTypes (field_args field)) (propertyValues flds))"

definition kindRefs :: "'r type_kind \<Rightarrow> 'r type_ref list" where
  "kindRefs k =
     (case k of
        ObjectType ifaces flds \<Rightarrow> fieldTypes flds
      | InterfaceType ifaces flds \<Rightarrow> fieldTypes flds
      | InputObjectType flds \<Rightarrow> argTypes flds
      | _ \<Rightarrow> [])"

definition schemaRefs ::
  "(addr named_type \<Rightarrow> bool) \<Rightarrow> heap \<Rightarrow> addr schema_config \<Rightarrow> addr type_ref list" where
  "schemaRefs isIntrospectionType h s =
     concat (map (\<lambda>a. if passes isIntrospectionType (h ! a) then [] else kindRefs (kind (h ! a)))
               (schema_types s)) @
     concat (map (\<lambda>d. argTypes (directive_args d)) (directives s))"

text \<open>
  Arrays with an identity, to state what \<^verbatim>\<open>sortBy\<close> does to the array it is given: a
  store of arrays indexed by address. \<^verbatim>\<open>array.slice()\<close> allocates a new array with the
  same elements; \<^verbatim>\<open>Array.prototype.sort\<close> sorts the array it is called on in place and
  returns it.
\<close>

type_synonym 'a arrays = "'a list list"

definition slice :: "'a arrays \<Rightarrow> addr \<Rightarrow> 'a arrays \<times> addr" where
  "slice st array = (st @ [st ! array], length st)"

definition sortInPlace :: "'a comparator \<Rightarrow> 'a arrays \<Rightarrow> addr \<Rightarrow> 'a arrays \<times> addr" where
  "sortInPlace c st array = (st[array := array_sort c (st ! array)], array)"

definition sortByInStore ::
  "'a arrays \<Rightarrow> addr \<Rightarrow> ('a \<Rightarrow> string) \<Rightarrow> string comparator \<Rightarrow> 'a arrays \<times> addr" where
  "sortByInStore st array mapToKey lc =
     (case slice st array of
        (st1, copy) \<Rightarrow>
          sortInPlace (\<lambda>obj1 obj2. let key1 = mapToKey obj1; key2 = mapToKey obj2 in lc key1 key2)
            st1 copy)"

text \<open>
  Maps with an identity, to state what \<^verbatim>\<open>sortObjMap\<close> does to the map it is given: a
  store of maps indexed by address. \<^verbatim>\<open>Object.create(null)\<close> allocates a new, empty map,
  and the loop assigns to that map only.
\<close>

fun sortObjMapInStore_loop ::
  "'a ObjMap list \<Rightarrow> addr \<Rightarrow> ('a \<Rightarrow> error + 'a) option \<Rightarrow> string list \<Rightarrow> addr
     \<Rightarrow> error + 'a ObjMap list" where
  "sortObjMapInStore_loop st m sortValueFn [] sortedMap = Inr st"
| "sortObjMapInStore_loop st m sortValueFn (key # keys) sortedMap =
     (case map_of (st ! m) key of
        None \<Rightarrow> Inl TypeError
      | Some val \<Rightarrow>
          bindE (case sortValueFn of Some f \<Rightarrow> f val | None \<Rightarrow> Inr val)
            (\<lambda>v. sortObjMapInStore_loop (st[sortedMap := setProperty (st ! sortedMap) key v]) m
                   sortValueFn keys sortedMap))"

definition sortObjMapInStore ::
  "'a ObjMap list \<Rightarrow> addr \<Rightarrow> ('a \<Rightarrow> error + 'a) option \<Rightarrow> string comparator
     \<Rightarrow> error + ('a ObjMap list \<times> addr)" where
  "sortObjMapInStore st m sortValueFn lc =
     (let sortedMap = length st;
          st1 = st @ [[]];
          sortedKeys = sortBy (objectKeys (st ! m)) (\<lambda>x. x) lc
      in bindE (sortObjMapInStore_loop st1 m sortValueFn sortedKeys sortedMap)
           (\<lambda>st2. Inr (st2, sortedMap)))"

text \<open>
  A schema to run the functions on: a scalar, an introspection type whose fields are not
  in order, two object types that refer to each other, and one type of every other kind.
  \<open>exampleIsIntrospectionType\<close> recognises the introspection types by their names.
\<close>

definition exampleIsIntrospectionType :: "addr named_type \<Rightarrow> bool" where
  "exampleIsIntrospectionType t =
     (name t \<in> set [''__Schema'', ''__Directive'', ''__DirectiveLocation'', ''__Type'', ''__Field'',
                    ''__InputValue'', ''__EnumValue'', ''__TypeKind''])"

definition exampleHeap :: heap where
  "exampleHeap =
     [NamedType ''String'' ScalarType ''built-in'',
      NamedType ''__Type''
        (ObjectType []
          [(''kind'', FieldConfig (NonNullT (Named 0)) [] ''''),
           (''name'', FieldConfig (Named 0) [] ''''),
           (''description'', FieldConfig (Named 0) [] '''')]) ''introspection'',
      NamedType ''Query''
        (ObjectType [Some 5]
          [(''b'', FieldConfig (NonNullT (Named 4)) [] ''field b''),
           (''a'', FieldConfig (ListT (Named 3))
                     [(''z'', InputValueConfig (Named 0) ''arg z''),
                      (''y'', InputValueConfig (Named 8) ''arg y'')] ''field a''),
           (''id'', FieldConfig (Named 0) [] '''')]) ''root'',
      NamedType ''A'' (ObjectType [] [(''toB'', FieldConfig (Named 4) [] '''')]) '''',
      NamedType ''B'' (ObjectType [] [(''toA'', FieldConfig (Named 3) [] '''')]) '''',
      NamedType ''Node'' (InterfaceType [] [(''id'', FieldConfig (Named 0) [] '''')]) '''',
      NamedType ''U'' (UnionType [Some 4, Some 3]) '''',
      NamedType ''Color'' (EnumType [(''RED'', ''r''), (''BLUE'', ''b'')]) '''',
      NamedType ''Filter''
        (InputObjectType
          [(''q'', InputValueConfig (Named 0) ''''),
           (''p'', InputValueConfig (ListT (Named 7)) '''')]) '''']"

definition exampleSchema :: "addr schema_config" where
  "exampleSchema =
     SchemaConfig [2, 4, 3, 0, 1, 5, 6, 7, 8]
       [Directive ''skip'' [''INLINE_FRAGMENT'', ''FIELD'']
          [(''if'', InputValueConfig (NonNullT (Named 0)) '''')] '''',
        Directive ''include'' [''FIELD''] [(''if'', InputValueConfig (NonNullT (Named 0)) '''')] '''']
       (Some 2) None None ''config''"

text \<open>What \<^verbatim>\<open>lexicographicSortSchema\<close> returns for the example.\<close>

definition sortedExampleHeap :: heap where
  "sortedExampleHeap =
     exampleHeap @
       [NamedType ''A'' (ObjectType [] [(''toB'', FieldConfig (Named 10) [] '''')]) '''',
        NamedType ''B'' (ObjectType [] [(''toA'', FieldConfig (Named 9) [] '''')]) '''',
        NamedType ''Color'' (EnumType [(''BLUE'', ''b''), (''RED'', ''r'')]) '''',
        NamedType ''Filter''
          (InputObjectType
            [(''p'', InputValueConfig (ListT (Named 11)) ''''),
             (''q'', InputValueConfig (Named 0) '''')]) '''',
        NamedType ''Node'' (InterfaceType [] [(''id'', FieldConfig (Named 0) [] '''')]) '''',
        NamedType ''Query''
          (ObjectType [Some 13]
            [(''a'', FieldConfig (ListT (Named 9))
                [(''y'', InputValueConfig (Named 12) ''arg y''),
                 (''z'', InputValueConfig (Named 0) ''arg z'')] ''field a''),
             (''b'', FieldConfig (NonNullT (Named 10)) [] ''field b''),
             (''id'', FieldConfig (Named 0) [] '''')]) ''root'',
        NamedType ''U'' (UnionType [Some 9, Some 10]) '''']"

definition sortedExampleSchema :: "addr schema_config" where
  "sortedExampleSchema =
     SchemaConfig [9, 10, 11, 12, 13, 14, 0, 15, 1]
       [Directive ''include'' [''FIELD''] [(''if'', InputValueConfig (NonNullT (Named 0)) '''')] '''',
        Directive ''skip'' [''FIELD'', ''INLINE_FRAGMENT'']
          [(''if'', InputValueConfig (NonNullT (Named 0)) '''')] '''']
       (Some 14) None None ''config''"

text \<open>
  A schema whose only type has a field of a type that is not in the schema's type set.
\<close>

definition danglingHeap :: heap where
  "danglingHeap =
     [NamedType ''Query'' (ObjectType [] [(''ghost'', FieldConfig (Named 1) [] '''')]) '''',
      NamedType ''Ghost'' (ObjectType [] [(''id'', FieldConfig (Named 1) [] '''')]) '''']"

definition danglingSchema :: "addr schema_config" where
  "danglingSchema = SchemaConfig [0] [] (Some 0) None None ''''"

text \<open>
  The same with the reference under wrappers: the field is a non-null list of the type
  that is not in the schema's type set.
\<close>

definition wrappedDanglingHeap :: heap where
  "wrappedDanglingHeap =
     [NamedType ''Query''
        (ObjectType [] [(''ghosts'', FieldConfig (NonNullT (ListT (Named 1))) [] '''')]) '''',
      NamedType ''Ghost'' (ObjectType [] [(''id'', FieldConfig (Named 1) [] '''')]) '''']"

definition wrappedDanglingSchema :: "addr schema_config" where
  "wrappedDanglingSchema = SchemaConfig [0] [] (Some 0) None None ''''"



section \<open>Properties of the sorting helpers\<close>

lemma mset_sort_insert: "mset (sort_insert c x xs) = add_mset x (mset xs)"
  by (induction xs) auto

lemma mset_array_sort: "mset (array_sort c xs) = mset xs"
  by (induction xs) (auto simp: mset_sort_insert)

lemma set_array_sort: "set (array_sort c xs) = set xs"
  using mset_array_sort [of c xs] by (metis set_mset_mset)

lemma length_array_sort: "length (array_sort c xs) = length xs"
  using mset_array_sort [of c xs] by (metis size_mset)

lemma consistent_total: "consistent c \<Longrightarrow> \<not> c a b \<le> 0 \<Longrightarrow> c b a \<le> 0"
proof -
  assume c: "consistent c" and n: "\<not> c a b \<le> 0"
  from c have "(c b a < 0) = (0 < c a b)" unfolding consistent_def by blast
  with n show ?thesis by simp
qed

lemma consistent_trans: "consistent c \<Longrightarrow> c a b \<le> 0 \<Longrightarrow> c b d \<le> 0 \<Longrightarrow> c a d \<le> 0"
  unfolding consistent_def by blast



lemma consistent_key: "consistent c \<Longrightarrow> consistent (\<lambda>a b. c (f a) (f b))"
  unfolding consistent_def by blast

lemma sorted_sort_insert:
  assumes "consistent c" and "sorted_wrt (\<lambda>a b. c a b \<le> 0) xs"
  shows "sorted_wrt (\<lambda>a b. c a b \<le> 0) (sort_insert c x xs)"
  using assms(2)
proof (induction xs)
  case Nil
  then show ?case by simp
next
  case (Cons y ys)
  show ?case
  proof (cases "c x y \<le> 0")
    case True
    then have "\<forall>z\<in>set ys. c x z \<le> 0"
      using Cons.prems consistent_trans [OF assms(1)] by auto
    with True Cons.prems show ?thesis by simp
  next
    case False
    then have "c y x \<le> 0" using consistent_total [OF assms(1)] by blast
    moreover have "set (sort_insert c x ys) = insert x (set ys)"
      using mset_sort_insert [of c x ys] by (metis set_mset_add_mset_insert set_mset_mset)
    ultimately show ?thesis using False Cons by auto
  qed
qed

lemma sorted_array_sort:
  "consistent c \<Longrightarrow> sorted_wrt (\<lambda>a b. c a b \<le> 0) (array_sort c xs)"
  by (induction xs) (auto intro: sorted_sort_insert)

lemma array_sort_sorted_id:
  "sorted_wrt (\<lambda>a b. c a b \<le> 0) xs \<Longrightarrow> array_sort c xs = xs"
proof (induction xs)
  case Nil
  then show ?case by simp
next
  case (Cons x xs)
  then have "array_sort c xs = xs" by simp
  moreover have "sort_insert c x xs = x # xs"
    using Cons.prems by (cases xs) auto
  ultimately show ?case by simp
qed




lemma codePointCompare_flip: "codePointCompare b a = - codePointCompare a b"
  by (induction a b rule: codePointCompare.induct) auto

lemma codePointCompare_Cons_le:
  "codePointCompare (x # xs) (y # ys) \<le> 0 \<longleftrightarrow>
     (of_char x :: nat) < of_char y \<or> ((of_char x :: nat) = of_char y \<and> codePointCompare xs ys \<le> 0)"
  by auto

lemma codePointCompare_trans:
  "codePointCompare a b \<le> 0 \<Longrightarrow> codePointCompare b d \<le> 0 \<Longrightarrow> codePointCompare a d \<le> 0"
proof (induction a arbitrary: b d)
  case Nil
  then show ?case by (cases d) auto
next
  case (Cons x xs)
  from Cons.prems(1) obtain y ys where b: "b = y # ys" by (cases b) auto
  from Cons.prems(2) b obtain z zs where d: "d = z # zs" by (cases d) auto
  have 1: "(of_char x :: nat) < of_char y \<or> ((of_char x :: nat) = of_char y \<and> codePointCompare xs ys \<le> 0)"
    using Cons.prems(1) unfolding b codePointCompare_Cons_le .
  have 2: "(of_char y :: nat) < of_char z \<or> ((of_char y :: nat) = of_char z \<and> codePointCompare ys zs \<le> 0)"
    using Cons.prems(2) unfolding b d codePointCompare_Cons_le .
  have "(of_char x :: nat) < of_char z \<or> ((of_char x :: nat) = of_char z \<and> codePointCompare xs zs \<le> 0)"
    using 1 2 Cons.IH [of ys zs] by auto
  then show ?case unfolding d codePointCompare_Cons_le .
qed

lemma consistent_codePointCompare: "consistent codePointCompare"
  unfolding consistent_def
proof (intro conjI allI impI)
  fix a b
  show "(codePointCompare a b < 0) = (0 < codePointCompare b a)"
    using codePointCompare_flip [of b a] by simp
next
  fix a b d
  assume "codePointCompare a b \<le> 0" "codePointCompare b d \<le> 0"
  then show "codePointCompare a d \<le> 0" by (rule codePointCompare_trans)
qed


section \<open>Properties of the closures\<close>

lemma bindE_Inr_iff: "bindE m f = Inr r \<longleftrightarrow> (\<exists>x. m = Inr x \<and> f x = Inr r)"
  by (cases m) auto

lemma mapE_Inr_iff: "mapE f xs = Inr ys \<longleftrightarrow> list_all2 (\<lambda>x y. f x = Inr y) xs ys"
proof (induction xs arbitrary: ys)
  case Nil
  then show ?case by auto
next
  case (Cons x xs)
  show ?case by (cases ys) (auto simp: bindE_Inr_iff Cons.IH)
qed

lemma setProperty_new:
  "k \<notin> fst ` set m \<Longrightarrow> \<not> isArrayIndex k \<Longrightarrow> setProperty m k v = m @ [(k, v)]"
  by (simp add: setProperty_def)

lemma sortObjMap_loop_Inr:
  assumes "sortObjMap_loop m f keys acc = Inr r"
    and "distinct keys" and "set keys \<inter> fst ` set acc = {}"
    and "\<forall>k\<in>set keys. \<not> isArrayIndex k"
  shows "\<exists>new. r = acc @ new \<and>
           list_all2 (\<lambda>k (k', v'). k' = k \<and> (\<exists>v. map_of m k = Some v \<and> applyFn f v = Inr v')) keys new"
  using assms
proof (induction keys arbitrary: acc)
  case Nil
  then show ?case by simp
next
  case (Cons k keys)
  from Cons.prems(1) obtain v v' where v: "map_of m k = Some v" and v': "applyFn f v = Inr v'"
    and rest: "sortObjMap_loop m f keys (setProperty acc k v') = Inr r"
    by (auto simp: bindE_Inr_iff applyFn_def split: option.splits)
  have new: "setProperty acc k v' = acc @ [(k, v')]"
    using Cons.prems(3,4) by (intro setProperty_new) auto
  have "set keys \<inter> fst ` set (acc @ [(k, v')]) = {}"
    using Cons.prems(2,3) by auto
  with Cons.IH [of "acc @ [(k, v')]"] rest new Cons.prems(2,4)
  obtain new' where r: "r = (acc @ [(k, v')]) @ new'"
    and all: "list_all2 (\<lambda>k (k', v'). k' = k \<and> (\<exists>v. map_of m k = Some v \<and> applyFn f v = Inr v')) keys new'"
    by auto
  show ?case
    by (rule exI [of _ "(k, v') # new'"]) (use r all v v' in simp)
qed

lemma sortObjMap_loop_succeeds:
  assumes "set keys \<subseteq> fst ` set m"
    and "\<forall>v\<in>snd ` set m. \<exists>v'. applyFn f v = Inr v'"
  shows "\<exists>r. sortObjMap_loop m f keys acc = Inr r"
  using assms(1)
proof (induction keys arbitrary: acc)
  case Nil
  then show ?case by simp
next
  case (Cons k keys)
  then have "k \<in> fst ` set m" by simp
  then obtain v where v: "map_of m k = Some v"
    by (metis domD dom_map_of_conv_image_fst)
  then have "v \<in> snd ` set m" by (metis map_of_SomeD snd_conv image_eqI)
  with assms(2) obtain v' where v': "applyFn f v = Inr v'" by blast
  from Cons have "\<exists>r. sortObjMap_loop m f keys (setProperty acc k v') = Inr r" by simp
  with v v' show ?case by (auto simp: applyFn_def split: option.splits)
qed

lemma sort_insert_map:
  assumes "\<And>a b. c' (f a) (f b) = c a b"
  shows "map f (sort_insert c x xs) = sort_insert c' (f x) (map f xs)"
  by (induction xs) (auto simp: assms)

lemma array_sort_map:
  assumes "\<And>a b. c' (f a) (f b) = c a b"
  shows "map f (array_sort c xs) = array_sort c' (map f xs)"
  by (induction xs) (auto simp: sort_insert_map [of c' f c, OF assms])

lemma sortBy_map:
  assumes "\<And>x. key' (f x) = key x"
  shows "sortBy (map f xs) key' lc = map f (sortBy xs key lc)"
  unfolding sortBy_def Let_def
  by (rule array_sort_map [symmetric]) (simp add: assms)

lemma mset_sortBy: "mset (sortBy xs key lc) = mset xs"
  by (simp add: sortBy_def mset_array_sort)

lemma set_sortBy: "set (sortBy xs key lc) = set xs"
  by (simp add: sortBy_def set_array_sort)

lemma length_sortBy: "length (sortBy xs key lc) = length xs"
  by (simp add: sortBy_def length_array_sort)

lemma distinct_sortBy: "distinct (sortBy xs key lc) = distinct xs"
  using mset_sortBy [of xs key lc] by (rule mset_eq_imp_distinct_iff)

lemma ordered_sortBy: "consistent lc \<Longrightarrow> ordered lc (map key (sortBy xs key lc))"
  unfolding ordered_def sortBy_def Let_def sorted_wrt_map
  by (rule sorted_array_sort) (rule consistent_key)

lemma sortBy_ordered_id: "ordered lc (map key xs) \<Longrightarrow> sortBy xs key lc = xs"
  unfolding ordered_def sortBy_def Let_def sorted_wrt_map
  by (rule array_sort_sorted_id)


lemma sortBy_idem: "consistent lc \<Longrightarrow> sortBy (sortBy xs key lc) key lc = sortBy xs key lc"
  by (rule sortBy_ordered_id) (rule ordered_sortBy)

lemma map_fst_sortBy: "map fst (sortBy m fst lc) = sortBy (map fst m) (\<lambda>x. x) lc"
  by (rule sortBy_map [symmetric]) simp

lemma sortObjMap_Inr:
  assumes "sortObjMap m f lc = Inr r" and "objMapOk m"
  shows "list_all2 (\<lambda>(k, v) (k', v'). k' = k \<and> applyFn f v = Inr v') (sortBy m fst lc) r"
proof -
  let ?keys = "sortBy (map fst m) (\<lambda>x. x) lc"
  let ?Q = "\<lambda>k (k', v'). k' = k \<and> (\<exists>v. map_of m k = Some v \<and> applyFn f v = Inr v')"
  have d: "distinct (map fst m)" and ni: "\<forall>k\<in>set (map fst m). \<not> isArrayIndex k"
    using assms(2) by (auto simp: objMapOk_def objectKeys_def list_all_iff)
  have loop: "sortObjMap_loop m f ?keys [] = Inr r"
    using assms(1) by (simp add: sortObjMap_def objectKeys_def)
  have "\<exists>new. r = [] @ new \<and> list_all2 ?Q ?keys new"
    by (rule sortObjMap_loop_Inr [OF loop]) (use d ni in \<open>simp_all add: distinct_sortBy set_sortBy\<close>)
  then have all: "list_all2 ?Q ?keys r" by simp
  then have "length ?keys = length r" by (rule list_all2_lengthD)
  then have len: "length (sortBy m fst lc) = length r"
    by (simp add: length_sortBy)
  show ?thesis
  proof (rule list_all2_all_nthI [OF len])
    fix i assume i: "i < length (sortBy m fst lc)"
    obtain k v where kv: "sortBy m fst lc ! i = (k, v)" by (cases "sortBy m fst lc ! i")
    obtain k' v' where kv': "r ! i = (k', v')" by (cases "r ! i")
    have "(k, v) \<in> set m" using kv i by (metis nth_mem set_sortBy)
    then have mo: "map_of m k = Some v" using d by simp
    have "?keys ! i = k"
      using kv i by (simp flip: map_fst_sortBy)
    moreover have "?Q (?keys ! i) (r ! i)"
      using all i len by (simp add: list_all2_conv_all_nth)
    ultimately have "k' = k \<and> applyFn f v = Inr v'" using kv' mo by simp
    then show "(\<lambda>(k, v) (k', v'). k' = k \<and> applyFn f v = Inr v') (sortBy m fst lc ! i) (r ! i)"
      by (simp add: kv kv')
  qed
qed

lemma sortObjMap_succeeds:
  assumes "\<forall>v\<in>snd ` set m. \<exists>v'. applyFn f v = Inr v'"
  shows "\<exists>r. sortObjMap m f lc = Inr r"
  unfolding sortObjMap_def Let_def objectKeys_def
  by (rule sortObjMap_loop_succeeds [OF _ assms]) (simp add: set_sortBy)

lemma sortObjMap_None:
  assumes "objMapOk m"
  shows "sortObjMap m None lc = Inr (sortBy m fst lc)"
proof -
  obtain r where r: "sortObjMap m None lc = Inr r"
    using sortObjMap_succeeds [of m None lc] by (auto simp: applyFn_def)
  have "list_all2 (\<lambda>(k, v) (k', v'). k' = k \<and> applyFn None v = Inr v') (sortBy m fst lc) r"
    by (rule sortObjMap_Inr [OF r assms])
  then have "list_all2 (=) (sortBy m fst lc) r"
    by (rule list_all2_mono) (auto simp: applyFn_def)
  then have "sortBy m fst lc = r" unfolding list_all2_eq [symmetric] .
  then show ?thesis using r by simp
qed

lemma sortObjMap_view:
  assumes "sortObjMap m f lc = Inr r" and "objMapOk m"
    and "\<And>k v v'. (k, v) \<in> set m \<Longrightarrow> applyFn f v = Inr v' \<Longrightarrow> G v' = F v"
  shows "map (\<lambda>(k, v). (k, G v)) r = map (\<lambda>(k, v). (k, F v)) (sortBy m fst lc)"
proof -
  have all: "list_all2 (\<lambda>(k, v) (k', v'). k' = k \<and> applyFn f v = Inr v') (sortBy m fst lc) r"
    by (rule sortObjMap_Inr [OF assms(1,2)])
  have "list_all2 (\<lambda>x y. (case x of (k, v) \<Rightarrow> (k, F v)) = (case y of (k, v) \<Rightarrow> (k, G v))) (sortBy m fst lc) r"
  proof (rule list.rel_mono_strong [OF all])
    fix x y
    assume x: "x \<in> set (sortBy m fst lc)"
      and xy: "(case x of (k, v) \<Rightarrow> \<lambda>(k', v'). k' = k \<and> applyFn f v = Inr v') y"
    obtain k v where [simp]: "x = (k, v)" by (cases x)
    obtain k' v' where [simp]: "y = (k', v')" by (cases y)
    from x have "(k, v) \<in> set m" by (simp add: set_sortBy)
    with xy assms(3) [of k v v']
    show "(case x of (k, v) \<Rightarrow> (k, F v)) = (case y of (k, v) \<Rightarrow> (k, G v))" by simp
  qed
  then have "map (\<lambda>(k, v). (k, F v)) (sortBy m fst lc) = map (\<lambda>(k, v). (k, G v)) r"
    by (simp add: list_all2_conv_all_nth list_eq_iff_nth_eq)
  then show ?thesis by simp
qed

lemma map_prod_id_case: "map_prod id g = (\<lambda>(k, v). (k, g v))"
  by auto

lemma resolvesD:
  "resolves h tm h' P \<Longrightarrow> P b \<Longrightarrow>
   \<exists>b'. replaceNamedType h tm b = Some b' \<and> typeName h' b' = typeName h b \<and> inIndex tm b'"
  unfolding resolves_def replaceNamedType_def inIndex_def
  by (metis map_of_SomeD snd_conv image_eqI)

lemma refOk_defined: "refOk P r \<Longrightarrow> r \<noteq> Undefined"
  by (cases r) simp_all

lemma newGraphQLList_defined: "t \<noteq> Undefined \<Longrightarrow> newGraphQLList t = Inr (ListT t)"
  by (cases t) (simp_all add: newGraphQLList_def)

lemma newGraphQLNonNull_defined: "t \<noteq> Undefined \<Longrightarrow> newGraphQLNonNull t = Inr (NonNullT t)"
  by (cases t) (simp_all add: newGraphQLNonNull_def)

lemma replaceType_view:
  assumes "resolves h tm h' P" and "refOk P r"
  shows "\<exists>r'. replaceType h tm r = Inr r' \<and>
           map_type_ref (typeName h') r' = map_type_ref (typeName h) r \<and> refOk (inIndex tm) r'"
  using assms(2)
proof (induction r)
  case (Named b)
  then have "P b" by simp
  from resolvesD [OF assms(1) this] show ?case by auto
next
  case (ListT r)
  then obtain r' where "replaceType h tm r = Inr r'"
    "map_type_ref (typeName h') r' = map_type_ref (typeName h) r" "refOk (inIndex tm) r'" by auto
  then show ?case by (simp add: newGraphQLList_defined [OF refOk_defined])
next
  case (NonNullT r)
  then obtain r' where "replaceType h tm r = Inr r'"
    "map_type_ref (typeName h') r' = map_type_ref (typeName h) r" "refOk (inIndex tm) r'" by auto
  then show ?case by (simp add: newGraphQLNonNull_defined [OF refOk_defined])
next
  case Undefined
  then show ?case by simp
qed

lemma objMapOk_cong: "map fst m' = map fst m \<Longrightarrow> objMapOk m' = objMapOk m"
  by (simp add: objMapOk_def objectKeys_def)

lemma objMapOk_sortBy: "objMapOk (sortBy m fst lc) = objMapOk m"
  unfolding objMapOk_def objectKeys_def map_fst_sortBy
  by (simp add: distinct_sortBy set_sortBy list_all_iff)

lemma sortObjMap_keys:
  assumes "sortObjMap m f lc = Inr r" and "objMapOk m"
  shows "map fst r = map fst (sortBy m fst lc)"
proof -
  have "map (\<lambda>(k, v). (k, ())) r = map (\<lambda>(k, v). (k, ())) (sortBy m fst lc)"
    by (rule sortObjMap_view [OF assms]) simp
  then have "map fst (map (\<lambda>(k, v). (k, ())) r) = map fst (map (\<lambda>(k, v). (k, ())) (sortBy m fst lc))"
    by simp
  then show ?thesis by (simp add: case_prod_beta comp_def)
qed

lemma sortObjMap_values:
  assumes "sortObjMap m f lc = Inr r" and "objMapOk m" and "v' \<in> snd ` set r"
  shows "\<exists>v\<in>snd ` set m. applyFn f v = Inr v'"
proof -
  have all: "list_all2 (\<lambda>(k, v) (k', v'). k' = k \<and> applyFn f v = Inr v') (sortBy m fst lc) r"
    by (rule sortObjMap_Inr [OF assms(1,2)])
  from assms(3) obtain k' where "(k', v') \<in> set r" by auto
  then obtain i where i: "i < length r" and ri: "r ! i = (k', v')" by (auto simp: in_set_conv_nth)
  obtain k v where kv: "sortBy m fst lc ! i = (k, v)" by (cases "sortBy m fst lc ! i")
  have len: "length (sortBy m fst lc) = length r" using all by (rule list_all2_lengthD)
  have "(k, v) \<in> set (sortBy m fst lc)" using kv i len by (metis nth_mem)
  then have "v \<in> snd ` set m" unfolding set_sortBy by force
  moreover have "applyFn f v = Inr v'"
    using all i len kv ri by (auto simp: list_all2_conv_all_nth)
  ultimately show ?thesis by blast
qed

lemma sortObjMap_rel:
  assumes ok: "objMapOk m"
    and step: "\<And>v. v \<in> snd ` set m \<Longrightarrow> \<exists>v'. f v = Inr v' \<and> G v' = F v \<and> Q v'"
  shows "\<exists>r. sortObjMap m (Some f) lc = Inr r \<and>
           map (map_prod id G) r = map (map_prod id F) (sortBy m fst lc) \<and>
           objMapOk r \<and> (\<forall>v'\<in>snd ` set r. Q v')"
proof -
  have det: "G v' = F v \<and> Q v'"
    if "v \<in> snd ` set m" and "applyFn (Some f) v = Inr v'" for v v'
  proof -
    from step [OF that(1)] obtain w where w: "f v = Inr w" "G w = F v" "Q w" by blast
    from that(2) w(1) have "v' = w" by (simp add: applyFn_def)
    with w show ?thesis by simp
  qed
  have "\<forall>v\<in>snd ` set m. \<exists>v'. applyFn (Some f) v = Inr v'"
  proof
    fix v assume "v \<in> snd ` set m"
    from step [OF this] obtain w where "f v = Inr w" by blast
    then show "\<exists>v'. applyFn (Some f) v = Inr v'" by (simp add: applyFn_def)
  qed
  then have "\<exists>r. sortObjMap m (Some f) lc = Inr r" by (rule sortObjMap_succeeds)
  then obtain r where r: "sortObjMap m (Some f) lc = Inr r" by blast
  have "map (\<lambda>(k, v). (k, G v)) r = map (\<lambda>(k, v). (k, F v)) (sortBy m fst lc)"
  proof (rule sortObjMap_view [OF r ok])
    fix k v v' assume "(k, v) \<in> set m" and a: "applyFn (Some f) v = Inr v'"
    then have "v \<in> snd ` set m" by force
    from det [OF this a] show "G v' = F v" by simp
  qed
  then have view: "map (map_prod id G) r = map (map_prod id F) (sortBy m fst lc)"
    by (simp add: map_prod_id_case)
  have "objMapOk r"
    using objMapOk_cong [OF sortObjMap_keys [OF r ok]] ok by (simp add: objMapOk_sortBy)
  moreover have "Q v'" if "v' \<in> snd ` set r" for v'
  proof -
    from sortObjMap_values [OF r ok that] obtain v where "v \<in> snd ` set m" "applyFn (Some f) v = Inr v'"
      by blast
    from det [OF this] show ?thesis by simp
  qed
  ultimately show ?thesis using r view by blast
qed

lemma sortBy_map_prod: "sortBy (map (map_prod id F) m) fst lc = map (map_prod id F) (sortBy m fst lc)"
  by (rule sortBy_map) simp

lemma sortArgs_view:
  assumes "resolves h tm h' P" and "argsOk P m"
  shows "\<exists>r. sortArgs lc h tm m = Inr r \<and>
           map (map_prod id (map_input_value_config (typeName h'))) r =
             specObjMap lc (map (map_prod id (map_input_value_config (typeName h))) m) \<and>
           argsOk (inIndex tm) r"
proof -
  define f where "f = (\<lambda>arg. bindE (replaceType h tm (iv_type arg)) (\<lambda>t. Inr (InputValueConfig t (iv_rest arg))))"
  have ok: "objMapOk m" and refs: "\<forall>v\<in>snd ` set m. refOk P (iv_type v)"
    using assms(2) by (auto simp: argsOk_def objectValues_def list_all_iff)
  have step: "\<exists>v'. f v = Inr v' \<and>
                map_input_value_config (typeName h') v' = map_input_value_config (typeName h) v \<and>
                refOk (inIndex tm) (iv_type v')" if "v \<in> snd ` set m" for v
  proof -
    from that refs have "refOk P (iv_type v)" by blast
    from replaceType_view [OF assms(1) this] obtain r' where
      r': "replaceType h tm (iv_type v) = Inr r'"
      "map_type_ref (typeName h') r' = map_type_ref (typeName h) (iv_type v)"
      "refOk (inIndex tm) r'" by blast
    show ?thesis
      by (rule exI [of _ "InputValueConfig r' (iv_rest v)"]) (use r' in \<open>cases v; simp add: f_def\<close>)
  qed
  from sortObjMap_rel [of m f "map_input_value_config (typeName h')"
      "map_input_value_config (typeName h)" "\<lambda>v'. refOk (inIndex tm) (iv_type v')" lc, OF ok step]
  obtain r where r: "sortObjMap m (Some f) lc = Inr r"
    and view: "map (map_prod id (map_input_value_config (typeName h'))) r =
               map (map_prod id (map_input_value_config (typeName h))) (sortBy m fst lc)"
    and okr: "objMapOk r" and q: "\<forall>v'\<in>snd ` set r. refOk (inIndex tm) (iv_type v')"
    by blast
  have "sortArgs lc h tm m = Inr r" using r by (simp add: sortArgs_def f_def)
  moreover have "argsOk (inIndex tm) r"
    using okr q by (simp add: argsOk_def objectValues_def list_all_iff)
  ultimately show ?thesis using view by (simp add: specObjMap_def sortBy_map_prod)
qed

lemma sortInputFields_eq: "sortInputFields lc h tm m = sortArgs lc h tm m"
  by (simp add: sortInputFields_def sortArgs_def)

lemma sortFields_view:
  assumes "resolves h tm h' P" and "fieldsOk P m"
  shows "\<exists>r. sortFields lc h tm m = Inr r \<and>
           map (map_prod id (map_field_config (typeName h'))) r =
             specFields lc (map (map_prod id (map_field_config (typeName h))) m) \<and>
           fieldsOk (inIndex tm) r"
proof -
  define f where "f = (\<lambda>field. bindE (replaceType h tm (field_type field))
                (\<lambda>t. bindE (sortArgs lc h tm (field_args field))
                (\<lambda>as. Inr (FieldConfig t as (field_rest field)))))"
  define Q where "Q = (\<lambda>v'. refOk (inIndex tm) (field_type v') \<and> argsOk (inIndex tm) (field_args v'))"
  define F where "F = (\<lambda>v. specField lc (map_field_config (typeName h) v))"
  have ok: "objMapOk m"
    and refs: "\<forall>v\<in>snd ` set m. refOk P (field_type v) \<and> argsOk P (field_args v)"
    using assms(2) by (auto simp: fieldsOk_def objectValues_def list_all_iff)
  have step: "\<exists>v'. f v = Inr v' \<and> map_field_config (typeName h') v' = F v \<and> Q v'"
    if "v \<in> snd ` set m" for v
  proof -
    from that refs have 1: "refOk P (field_type v)" and 2: "argsOk P (field_args v)" by blast+
    from replaceType_view [OF assms(1) 1] obtain r' where
      r': "replaceType h tm (field_type v) = Inr r'"
      "map_type_ref (typeName h') r' = map_type_ref (typeName h) (field_type v)"
      "refOk (inIndex tm) r'" by blast
    from sortArgs_view [OF assms(1) 2, of lc] obtain as where
      as: "sortArgs lc h tm (field_args v) = Inr as"
      "map (map_prod id (map_input_value_config (typeName h'))) as =
         specObjMap lc (map (map_prod id (map_input_value_config (typeName h))) (field_args v))"
      "argsOk (inIndex tm) as" by blast
    show ?thesis
      by (rule exI [of _ "FieldConfig r' as (field_rest v)"])
        (use r' as in \<open>cases v; simp add: f_def F_def Q_def specField_def\<close>)
  qed
  from sortObjMap_rel [of m f "map_field_config (typeName h')" F Q lc, OF ok step]
  obtain r where r: "sortObjMap m (Some f) lc = Inr r"
    and view: "map (map_prod id (map_field_config (typeName h'))) r = map (map_prod id F) (sortBy m fst lc)"
    and okr: "objMapOk r" and q: "\<forall>v'\<in>snd ` set r. Q v'"
    by blast
  have "sortFields lc h tm m = Inr r" using r by (simp add: sortFields_def f_def)
  moreover have "fieldsOk (inIndex tm) r"
    using okr q by (simp add: fieldsOk_def objectValues_def list_all_iff Q_def)
  moreover have "map (map_prod id F) (sortBy m fst lc) =
      specFields lc (map (map_prod id (map_field_config (typeName h))) m)"
  proof -
    have "map (map_prod id F) ys =
        map (map_prod id (specField lc)) (map (map_prod id (map_field_config (typeName h))) ys)" for ys
      by (induction ys) (auto simp: F_def)
    then have "map (map_prod id F) (sortBy m fst lc) =
        map (map_prod id (specField lc)) (map (map_prod id (map_field_config (typeName h))) (sortBy m fst lc))" .
    also have "\<dots> = map (map_prod id (specField lc))
        (sortBy (map (map_prod id (map_field_config (typeName h))) m) fst lc)"
      by (simp only: sortBy_map_prod)
    finally show ?thesis
      by (simp only: specFields_def specObjMap_def map_prod_id_case)
  qed
  ultimately show ?thesis using view by simp
qed

lemma membersOk_those:
  "membersOk P arr \<Longrightarrow> \<exists>objs. those arr = Some objs \<and> arr = map Some objs \<and> (\<forall>b\<in>set objs. P b)"
proof (induction arr)
  case Nil
  then show ?case by simp
next
  case (Cons x arr)
  then obtain b where "x = Some b" "P b" by (cases x) (auto simp: membersOk_def)
  moreover from Cons obtain objs where "those arr = Some objs" "arr = map Some objs" "\<forall>b\<in>set objs. P b"
    by (auto simp: membersOk_def)
  ultimately show ?case by auto
qed

lemma sortTypes_view:
  assumes "resolves h tm h' P" and "membersOk P arr"
  shows "\<exists>r. sortTypes lc h tm arr = Inr r \<and>
           map (map_option (typeName h')) r = sortBy (map (map_option (typeName h)) arr) optName lc \<and>
           membersOk (inIndex tm) r"
proof -
  from membersOk_those [OF assms(2)] obtain objs where
    objs: "those arr = Some objs" "arr = map Some objs" "\<forall>b\<in>set objs. P b" by blast
  let ?sorted = "sortBy objs (typeName h) lc"
  let ?r = "map (replaceNamedType h tm) ?sorted"
  have r: "sortTypes lc h tm arr = Inr ?r"
    using objs(1) by (simp add: sortTypes_def sortByName_def)
  have each: "\<exists>b'. replaceNamedType h tm b = Some b' \<and> typeName h' b' = typeName h b \<and> inIndex tm b'"
    if "b \<in> set ?sorted" for b
    using that objs(3) resolvesD [OF assms(1)] by (simp add: set_sortBy)
  have "map (map_option (typeName h')) ?r = map (\<lambda>b. Some (typeName h b)) ?sorted"
    using each by (auto simp: comp_def)
  also have "\<dots> = sortBy (map (\<lambda>b. Some (typeName h b)) objs) optName lc"
    by (rule sortBy_map [symmetric]) (simp add: optName_def)
  finally have view: "map (map_option (typeName h')) ?r = sortBy (map (map_option (typeName h)) arr) optName lc"
    by (simp add: objs(2) comp_def)
  have "membersOk (inIndex tm) ?r"
    unfolding membersOk_def list_all_iff
  proof
    fix x assume "x \<in> set ?r"
    then obtain b where "b \<in> set ?sorted" "x = replaceNamedType h tm b" by auto
    with each [of b] show "case x of None \<Rightarrow> False | Some b \<Rightarrow> inIndex tm b" by auto
  qed
  with r view show ?thesis by blast
qed

lemma sortDirective_view:
  assumes "resolves h tm h' P" and "argsOk P (directive_args d)"
  shows "\<exists>d'. sortDirective lc h tm d = Inr d' \<and>
           viewDirective h' d' = specDirective lc (viewDirective h d) \<and>
           argsOk (inIndex tm) (directive_args d')"
proof -
  from sortArgs_view [OF assms, of lc] obtain as where
    as: "sortArgs lc h tm (directive_args d) = Inr as"
    "map (map_prod id (map_input_value_config (typeName h'))) as =
       specObjMap lc (map (map_prod id (map_input_value_config (typeName h))) (directive_args d))"
    "argsOk (inIndex tm) as" by blast
  show ?thesis
    by (rule exI [of _ "Directive (directive_name d) (sortBy (locations d) (\<lambda>x. x) lc) as (directive_rest d)"])
      (use as in \<open>cases d; simp add: sortDirective_def viewDirective_def specDirective_def\<close>)
qed

lemma sortObjMap_None_succeeds: "\<exists>r. sortObjMap m None lc = Inr r"
  by (rule sortObjMap_succeeds) (simp add: applyFn_def)

lemma sortNamedType_cases:
  "sortNamedType lc isIntro h pending a =
     (if passes isIntro (h ! a) then Inr (a, pending)
      else if kind (h ! a) = Unrecognised then Inl (InvariantViolation ''Unexpected type'')
      else Inr (length h + length pending, pending @ [construct lc h (h ! a)]))"
proof (cases "passes isIntro (h ! a)")
  case True
  then show ?thesis by (simp add: sortNamedType_def passes_def Let_def)
next
  case False
  then have np: "\<not> (isScalarType (h ! a) \<or> isIntro (h ! a))" by (simp add: passes_def)
  show ?thesis
  proof (cases "kind (h ! a)")
    case ScalarType
    then show ?thesis using np by (simp add: isScalarType_def)
  next
    case (EnumType vals)
    obtain vs where vs: "sortObjMap vals None lc = Inr vs"
      using sortObjMap_None_succeeds by blast
    have "construct lc h (h ! a) = (\<lambda>typeMap. Inr (NamedType (name (h ! a)) (EnumType vs) (type_rest (h ! a))))"
      by (intro ext) (simp add: construct_def EnumType vs)
    then show ?thesis using np False EnumType vs by (simp add: sortNamedType_def Let_def)
  qed (use np False in \<open>simp_all add: sortNamedType_def Let_def construct_def\<close>)
qed

lemma construct_name: "construct lc h t tm = Inr t' \<Longrightarrow> name t' = name t"
  by (cases "kind t") (auto simp: construct_def bindE_Inr_iff)

lemma construct_view:
  assumes "resolves h tm h' P" and "kindOk P (kind t)"
  shows "\<exists>t'. construct lc h t tm = Inr t' \<and> viewType h' t' = specType lc (viewType h t) \<and>
           kindOk (inIndex tm) (kind t') \<and> name t' = name t"
proof (cases t)
  case (NamedType n k rest)
  show ?thesis
  proof (cases k)
    case ScalarType
    then show ?thesis using NamedType
      by (simp add: construct_def viewType_def specType_def specKind_def kindOk_def)
  next
    case (ObjectType ifaces flds)
    then have "membersOk P ifaces" "fieldsOk P flds"
      using assms(2) NamedType by (simp_all add: kindOk_def)
    from sortTypes_view [OF assms(1) this(1), of lc] sortFields_view [OF assms(1) this(2), of lc]
    obtain ifs fs where
      "sortTypes lc h tm ifaces = Inr ifs"
      "map (map_option (typeName h')) ifs = sortBy (map (map_option (typeName h)) ifaces) optName lc"
      "membersOk (inIndex tm) ifs"
      "sortFields lc h tm flds = Inr fs"
      "map (map_prod id (map_field_config (typeName h'))) fs =
         specFields lc (map (map_prod id (map_field_config (typeName h))) flds)"
      "fieldsOk (inIndex tm) fs" by blast
    then show ?thesis using NamedType ObjectType
      by (simp add: construct_def viewType_def specType_def specKind_def kindOk_def)
  next
    case (InterfaceType ifaces flds)
    then have "membersOk P ifaces" "fieldsOk P flds"
      using assms(2) NamedType by (simp_all add: kindOk_def)
    from sortTypes_view [OF assms(1) this(1), of lc] sortFields_view [OF assms(1) this(2), of lc]
    obtain ifs fs where
      "sortTypes lc h tm ifaces = Inr ifs"
      "map (map_option (typeName h')) ifs = sortBy (map (map_option (typeName h)) ifaces) optName lc"
      "membersOk (inIndex tm) ifs"
      "sortFields lc h tm flds = Inr fs"
      "map (map_prod id (map_field_config (typeName h'))) fs =
         specFields lc (map (map_prod id (map_field_config (typeName h))) flds)"
      "fieldsOk (inIndex tm) fs" by blast
    then show ?thesis using NamedType InterfaceType
      by (simp add: construct_def viewType_def specType_def specKind_def kindOk_def)
  next
    case (UnionType members)
    then have "membersOk P members"
      using assms(2) NamedType by (simp_all add: kindOk_def)
    from sortTypes_view [OF assms(1) this(1), of lc]
    obtain ts where
      "sortTypes lc h tm members = Inr ts"
      "map (map_option (typeName h')) ts = sortBy (map (map_option (typeName h)) members) optName lc"
      "membersOk (inIndex tm) ts" by blast
    then show ?thesis using NamedType UnionType
      by (simp add: construct_def viewType_def specType_def specKind_def kindOk_def)
  next
    case (EnumType vals)
    then have ok: "objMapOk vals"
      using assms(2) NamedType by (simp_all add: kindOk_def)
    show ?thesis using NamedType EnumType sortObjMap_None [OF ok, of lc] ok
      by (simp add: construct_def viewType_def specType_def specKind_def kindOk_def specObjMap_def
          objMapOk_sortBy)
  next
    case (InputObjectType flds)
    then have "argsOk P flds"
      using assms(2) NamedType by (simp_all add: kindOk_def)
    from sortArgs_view [OF assms(1) this(1), of lc]
    obtain fs where
      "sortArgs lc h tm flds = Inr fs"
      "map (map_prod id (map_input_value_config (typeName h'))) fs =
             specObjMap lc (map (map_prod id (map_input_value_config (typeName h))) flds)"
      "argsOk (inIndex tm) fs" by blast
    then show ?thesis using NamedType InputObjectType
      by (simp add: construct_def viewType_def specType_def specKind_def kindOk_def sortInputFields_eq)
  next
    case Unrecognised
    then show ?thesis using assms(2) NamedType by (simp add: kindOk_def)
  qed
qed

lemma length_assignAddrs: "length (assignAddrs isIntro h n as) = length as"
  by (induction as arbitrary: n) auto

lemma rebuilt_Nil: "rebuilt isIntro h [] = []"
  by (simp add: rebuilt_def)

lemma rebuilt_Cons:
  "rebuilt isIntro h (a # as) =
     (if passes isIntro (h ! a) then rebuilt isIntro h as else a # rebuilt isIntro h as)"
  by (simp add: rebuilt_def)

lemma keyValMap_from_types:
  assumes "distinct (map (typeName h) as)"
    and "\<forall>a\<in>set as. typeName h a \<notin> fst ` set m"
    and "\<forall>a\<in>set as. \<not> isArrayIndex (typeName h a)"
    and "\<forall>a\<in>set as. passes isIntro (h ! a) \<or> kind (h ! a) \<noteq> Unrecognised"
  shows "keyValMap_from as (typeName h) (sortNamedType lc isIntro h) m pending =
         Inr (m @ zip (map (typeName h) as) (assignAddrs isIntro h (length h + length pending) as),
              pending @ map (\<lambda>a. construct lc h (h ! a)) (rebuilt isIntro h as))"
  using assms
proof (induction as arbitrary: m pending)
  case Nil
  then show ?case by (simp add: rebuilt_Nil rebuilt_Cons)
next
  case (Cons a as)
  have new: "setProperty m (typeName h a) v = m @ [(typeName h a, v)]" for v
    using Cons.prems(2,3) by (intro setProperty_new) auto
  have d: "distinct (map (typeName h) as)" using Cons.prems(1) by simp
  have fresh: "\<forall>b\<in>set as. typeName h b \<notin> fst ` set (m @ [(typeName h a, v)])" for v
  proof
    fix b assume b: "b \<in> set as"
    have "typeName h a \<notin> typeName h ` set as" using Cons.prems(1) by simp
    with b have "typeName h b \<noteq> typeName h a" by (metis image_eqI)
    moreover have "typeName h b \<notin> fst ` set m" using b Cons.prems(2) by simp
    ultimately show "typeName h b \<notin> fst ` set (m @ [(typeName h a, v)])" by simp
  qed
  have ni: "\<forall>a\<in>set as. \<not> isArrayIndex (typeName h a)" using Cons.prems(3) by simp
  have rec: "\<forall>a\<in>set as. passes isIntro (h ! a) \<or> kind (h ! a) \<noteq> Unrecognised"
    using Cons.prems(4) by simp
  show ?case
  proof (cases "passes isIntro (h ! a)")
    case True
    show ?thesis
      using True Cons.IH [OF d fresh ni rec, of a pending]
      by (simp add: sortNamedType_cases new rebuilt_Nil rebuilt_Cons)
  next
    case False
    then have "kind (h ! a) \<noteq> Unrecognised" using Cons.prems(4) by simp
    then show ?thesis
      using False Cons.IH [OF d fresh ni rec, of "length h + length pending" "pending @ [construct lc h (h ! a)]"]
      by (simp add: sortNamedType_cases new rebuilt_Nil rebuilt_Cons)
  qed
qed

lemma assignAddrs_nth:
  assumes "i < length as"
  shows "if passes isIntro (h ! (as ! i)) then assignAddrs isIntro h n as ! i = as ! i
         else n \<le> assignAddrs isIntro h n as ! i \<and>
              assignAddrs isIntro h n as ! i - n < length (rebuilt isIntro h as) \<and>
              rebuilt isIntro h as ! (assignAddrs isIntro h n as ! i - n) = as ! i"
  using assms
proof (induction as arbitrary: n i)
  case Nil
  then show ?case by simp
next
  case (Cons a as)
  show ?case
  proof (cases i)
    case 0
    then show ?thesis by (simp add: rebuilt_Nil rebuilt_Cons)
  next
    case (Suc j)
    then have j: "j < length as" using Cons.prems by simp
    show ?thesis
    proof (cases "passes isIntro (h ! a)")
      case True
      then show ?thesis using Cons.IH [OF j, of n] Suc by (simp add: rebuilt_Nil rebuilt_Cons)
    next
      case False
      show ?thesis
      proof (cases "passes isIntro (h ! (as ! j))")
        case True
        then show ?thesis using Cons.IH [OF j, of "Suc n"] Suc False by simp
      next
        case np: False
        let ?x = "assignAddrs isIntro h (Suc n) as ! j"
        from Cons.IH [OF j, of "Suc n"] np
        have 1: "Suc n \<le> ?x" and 2: "?x - Suc n < length (rebuilt isIntro h as)"
          and 3: "rebuilt isIntro h as ! (?x - Suc n) = as ! j" by simp_all
        from 1 have 4: "?x - n = Suc (?x - Suc n)" by simp
        show ?thesis using Suc False np 1 2 3 by (simp add: rebuilt_Nil rebuilt_Cons 4)
      qed
    qed
  qed
qed

lemma set_assignAddrs:
  "set (assignAddrs isIntro h n as) \<subseteq> set as \<union> {n..<n + length (rebuilt isIntro h as)}"
proof (induction as arbitrary: n)
  case Nil
  then show ?case by simp
next
  case (Cons a as)
  show ?case
  proof (cases "passes isIntro (h ! a)")
    case True
    then show ?thesis using Cons [of n] by (auto simp: rebuilt_Nil rebuilt_Cons)
  next
    case False
    then show ?thesis using Cons [of "Suc n"] by (auto simp: rebuilt_Nil rebuilt_Cons)
  qed
qed

lemma distinct_assignAddrs:
  assumes "distinct as" and "\<forall>a\<in>set as. a < n"
  shows "distinct (assignAddrs isIntro h n as)"
  using assms
proof (induction as arbitrary: n)
  case Nil
  then show ?case by simp
next
  case (Cons a as)
  show ?case
  proof (cases "passes isIntro (h ! a)")
    case True
    have "a \<notin> set (assignAddrs isIntro h n as)"
      using set_assignAddrs [of isIntro h n as] Cons.prems by auto
    then show ?thesis using True Cons by simp
  next
    case False
    have "n \<notin> set (assignAddrs isIntro h (Suc n) as)"
      using set_assignAddrs [of isIntro h "Suc n" as] Cons.prems by auto
    moreover have "distinct (assignAddrs isIntro h (Suc n) as)"
      using Cons.prems by (intro Cons.IH) auto
    ultimately show ?thesis using False by simp
  qed
qed

lemma resolves_index:
  assumes "distinct (map (typeName h) as)" and "\<forall>a\<in>set as. a < length h"
    and "map name news = map (\<lambda>a. name (h ! a)) (rebuilt isIntro h as)"
  shows "resolves h (zip (map (typeName h) as) (assignAddrs isIntro h (length h) as)) (h @ news)
           (\<lambda>b. b \<in> set as)"
  unfolding resolves_def
proof (intro allI impI)
  fix b assume "b \<in> set as"
  then obtain i where i: "i < length as" and b: "as ! i = b" by (auto simp: in_set_conv_nth)
  let ?vs = "assignAddrs isIntro h (length h) as"
  have len: "length news = length (rebuilt isIntro h as)"
    using assms(3) by (metis length_map)
  have "map_of (zip (map (typeName h) as) ?vs) (map (typeName h) as ! i) = Some (?vs ! i)"
    by (rule map_of_zip_nth) (use i assms(1) in \<open>simp_all add: length_assignAddrs\<close>)
  then have 1: "map_of (zip (map (typeName h) as) ?vs) (typeName h b) = Some (?vs ! i)"
    using i b by simp
  have 2: "typeName (h @ news) (?vs ! i) = typeName h b"
  proof (cases "passes isIntro (h ! b)")
    case True
    then have "?vs ! i = b" using assignAddrs_nth [OF i, of isIntro h "length h"] b by simp
    moreover have "b < length h" using assms(2) \<open>b \<in> set as\<close> by blast
    ultimately show ?thesis by (simp add: typeName_def nth_append)
  next
    case False
    let ?j = "?vs ! i - length h"
    from assignAddrs_nth [OF i, of isIntro h "length h"] False b
    have ge: "length h \<le> ?vs ! i" and j: "?j < length (rebuilt isIntro h as)"
      and r: "rebuilt isIntro h as ! ?j = b" by simp_all
    have "(h @ news) ! (?vs ! i) = news ! ?j" using ge by (simp add: nth_append)
    moreover have "name (news ! ?j) = map name news ! ?j" using j len by simp
    moreover have "map (\<lambda>a. name (h ! a)) (rebuilt isIntro h as) ! ?j = name (h ! b)"
      using j r by simp
    ultimately show ?thesis using assms(3) by (simp add: typeName_def)
  qed
  from 1 2 show "\<exists>b'. map_of (zip (map (typeName h) as) ?vs) (typeName h b) = Some b' \<and>
                   typeName (h @ news) b' = typeName h b" by blast
qed

lemma wellFormedD:
  assumes "wellFormed isIntro h s"
  shows "\<forall>a\<in>set (schema_types s). a < length h"
    and "distinct (map (typeName h) (schema_types s))"
    and "\<forall>a\<in>set (schema_types s). \<not> isArrayIndex (typeName h a)"
    and "\<forall>a\<in>set (schema_types s). passes isIntro (h ! a) \<longrightarrow> pred_named_type (\<lambda>b. b < length h) (h ! a)"
    and "\<forall>a\<in>set (schema_types s). \<not> passes isIntro (h ! a) \<longrightarrow>
           kindOk (\<lambda>b. b \<in> set (schema_types s)) (kind (h ! a))"
    and "\<forall>d\<in>set (directives s). argsOk (\<lambda>b. b \<in> set (schema_types s)) (directive_args d)"
    and "rootOk (\<lambda>b. b \<in> set (schema_types s)) (query s)"
    and "rootOk (\<lambda>b. b \<in> set (schema_types s)) (mutation s)"
    and "rootOk (\<lambda>b. b \<in> set (schema_types s)) (subscription s)"
  using assms unfolding wellFormed_def Let_def list_all_iff by auto

lemma set_sortedTypes: "set (sortedTypes lc h s) = set (schema_types s)"
  by (simp add: sortedTypes_def sortByName_def set_sortBy)

lemma mset_sortedTypes: "mset (sortedTypes lc h s) = mset (schema_types s)"
  by (simp add: sortedTypes_def sortByName_def mset_sortBy)

lemma distinct_names_sortedTypes:
  "distinct (map (typeName h) (sortedTypes lc h s)) = distinct (map (typeName h) (schema_types s))"
proof -
  have "mset (map (typeName h) (sortedTypes lc h s)) = mset (map (typeName h) (schema_types s))"
    by (simp add: mset_sortedTypes)
  then show ?thesis by (rule mset_eq_imp_distinct_iff)
qed

lemma length_newAddrs: "length (newAddrs lc isIntro h s) = length (sortedTypes lc h s)"
  by (simp add: newAddrs_def length_assignAddrs)

lemma objectValues_typeIndex: "objectValues (typeIndex lc isIntro h s) = newAddrs lc isIntro h s"
  by (simp add: objectValues_def typeIndex_def length_newAddrs)

lemma mapE_succeeds: "(\<And>x. x \<in> set xs \<Longrightarrow> \<exists>y. f x = Inr y) \<Longrightarrow> \<exists>ys. mapE f xs = Inr ys"
proof (induction xs)
  case Nil
  then show ?case by simp
next
  case (Cons x xs)
  then obtain y ys where "f x = Inr y" "mapE f xs = Inr ys" by (meson list.set_intros)
  then show ?case by simp
qed

lemma keyValMap_types:
  assumes "wellFormed isIntro h s"
  shows "keyValMap (sortedTypes lc h s) (typeName h) (sortNamedType lc isIntro h) [] =
           Inr (typeIndex lc isIntro h s,
                map (\<lambda>a. construct lc h (h ! a)) (rebuilt isIntro h (sortedTypes lc h s)))"
proof -
  note wf = wellFormedD [OF assms]
  have "\<forall>a\<in>set (sortedTypes lc h s). passes isIntro (h ! a) \<or> kind (h ! a) \<noteq> Unrecognised"
    using wf(5) by (auto simp: set_sortedTypes kindOk_def)
  with keyValMap_from_types [of h "sortedTypes lc h s" "[]" isIntro lc "[]"] wf(2,3)
  show ?thesis
    by (simp add: keyValMap_def typeIndex_def newAddrs_def distinct_names_sortedTypes set_sortedTypes)
qed

lemma resolves_typeIndex:
  assumes "wellFormed isIntro h s"
    and "map name news = map (\<lambda>a. name (h ! a)) (rebuilt isIntro h (sortedTypes lc h s))"
  shows "resolves h (typeIndex lc isIntro h s) (h @ news) (\<lambda>b. b \<in> set (schema_types s))"
proof -
  note wf = wellFormedD [OF assms(1)]
  have "resolves h (typeIndex lc isIntro h s) (h @ news) (\<lambda>b. b \<in> set (sortedTypes lc h s))"
    unfolding typeIndex_def newAddrs_def
    by (rule resolves_index [OF _ _ assms(2)])
      (use wf(1,2) in \<open>simp_all add: distinct_names_sortedTypes set_sortedTypes\<close>)
  then show ?thesis by (simp add: set_sortedTypes)
qed

lemma rebuilt_kindOk:
  assumes "wellFormed isIntro h s" and "a \<in> set (rebuilt isIntro h (sortedTypes lc h s))"
  shows "kindOk (\<lambda>b. b \<in> set (schema_types s)) (kind (h ! a))"
  using assms(2) wellFormedD(5) [OF assms(1)] by (simp add: rebuilt_def set_sortedTypes)

lemma sort_explicit:
  assumes "wellFormed isIntro h s"
  shows "\<exists>objs ds.
    lexicographicSortSchema lc isIntro h s =
      Inr (h @ objs,
           SchemaConfig (newAddrs lc isIntro h s) ds
             (replaceMaybeType h (typeIndex lc isIntro h s) (query s))
             (replaceMaybeType h (typeIndex lc isIntro h s) (mutation s))
             (replaceMaybeType h (typeIndex lc isIntro h s) (subscription s))
             (schema_rest s)) \<and>
    list_all2 (\<lambda>a t'. construct lc h (h ! a) (typeIndex lc isIntro h s) = Inr t')
      (rebuilt isIntro h (sortedTypes lc h s)) objs \<and>
    list_all2 (\<lambda>d d'. sortDirective lc h (typeIndex lc isIntro h s) d = Inr d')
      (sortByName (directives s) directive_name lc) ds \<and>
    resolves h (typeIndex lc isIntro h s) (h @ objs) (\<lambda>b. b \<in> set (schema_types s))"
proof -
  let ?tm = "typeIndex lc isIntro h s"
  let ?rb = "rebuilt isIntro h (sortedTypes lc h s)"
  let ?P = "\<lambda>b. b \<in> set (schema_types s)"
  note wf = wellFormedD [OF assms]
  have res0: "resolves h ?tm (h @ map (\<lambda>a. h ! a) ?rb) ?P"
    by (rule resolves_typeIndex [OF assms]) (simp add: comp_def)
  have "\<exists>ys. mapE (\<lambda>th. th ?tm) (map (\<lambda>a. construct lc h (h ! a)) ?rb) = Inr ys"
  proof (rule mapE_succeeds)
    fix th assume "th \<in> set (map (\<lambda>a. construct lc h (h ! a)) ?rb)"
    then obtain a where a: "a \<in> set ?rb" and th: "th = construct lc h (h ! a)" by auto
    from construct_view [OF res0 rebuilt_kindOk [OF assms a], of lc]
    show "\<exists>y. th ?tm = Inr y" unfolding th by blast
  qed
  then obtain objs where objs: "mapE (\<lambda>th. th ?tm) (map (\<lambda>a. construct lc h (h ! a)) ?rb) = Inr objs"
    by blast
  then have all: "list_all2 (\<lambda>a t'. construct lc h (h ! a) ?tm = Inr t') ?rb objs"
    by (simp add: mapE_Inr_iff list_all2_map1)
  have "\<exists>ds. mapE (sortDirective lc h ?tm) (sortByName (directives s) directive_name lc) = Inr ds"
  proof (rule mapE_succeeds)
    fix d assume "d \<in> set (sortByName (directives s) directive_name lc)"
    then have "argsOk ?P (directive_args d)" using wf(6) by (simp add: sortByName_def set_sortBy)
    from sortDirective_view [OF res0 this, of lc]
    show "\<exists>y. sortDirective lc h ?tm d = Inr y" by blast
  qed
  then obtain ds where ds: "mapE (sortDirective lc h ?tm) (sortByName (directives s) directive_name lc) = Inr ds"
    by blast
  have "map name objs = map (\<lambda>a. name (h ! a)) ?rb"
    using all by (induction rule: list_all2_induct) (auto dest: construct_name)
  then have res: "resolves h ?tm (h @ objs) ?P" by (rule resolves_typeIndex [OF assms])
  have "lexicographicSortSchema lc isIntro h s =
      Inr (h @ objs,
           SchemaConfig (newAddrs lc isIntro h s) ds
             (replaceMaybeType h ?tm (query s)) (replaceMaybeType h ?tm (mutation s))
             (replaceMaybeType h ?tm (subscription s)) (schema_rest s))"
    using keyValMap_types [OF assms, of lc] objs ds
    by (simp add: lexicographicSortSchema_def sortedTypes_def [symmetric] objectValues_typeIndex)
  with all ds res show ?thesis by (auto simp: mapE_Inr_iff)
qed

lemma refOk_set: "refOk P r \<Longrightarrow> b \<in> set_type_ref r \<Longrightarrow> P b"
  by (induction r) auto

lemma argsOk_set:
  "argsOk P m \<Longrightarrow> (k, v) \<in> set m \<Longrightarrow> b \<in> set_input_value_config v \<Longrightarrow> P b"
proof -
  assume a: "argsOk P m" "(k, v) \<in> set m" "b \<in> set_input_value_config v"
  from a(1,2) have "refOk P (iv_type v)"
    by (force simp: argsOk_def objectValues_def list_all_iff)
  moreover from a(3) have "b \<in> set_type_ref (iv_type v)" by (cases v) simp
  ultimately show "P b" by (rule refOk_set)
qed

lemma fieldsOk_set:
  assumes "fieldsOk P m" and "(k, v) \<in> set m" and "b \<in> set_field_config v"
  shows "P b"
proof (cases v)
  case (FieldConfig t as r)
  from assms(1,2) have 1: "refOk P t" and 2: "argsOk P as"
    using FieldConfig by (auto simp: fieldsOk_def objectValues_def list_all_iff)
  from assms(3) FieldConfig consider "b \<in> set_type_ref t"
    | k' v' where "(k', v') \<in> set as" "b \<in> set_input_value_config v'"
    by auto
  then show ?thesis
  proof cases
    case 1
    then show ?thesis using \<open>refOk P t\<close> by (rule refOk_set [rotated])
  next
    case 2
    then show ?thesis using argsOk_set [OF \<open>argsOk P as\<close>] by blast
  qed
qed

lemma membersOk_set: "membersOk P arr \<Longrightarrow> x \<in> set arr \<Longrightarrow> b \<in> set_option x \<Longrightarrow> P b"
  by (cases x) (auto simp: membersOk_def list_all_iff)

lemma kindOk_set:
  assumes "kindOk P (kind t)" and "b \<in> set_named_type t"
  shows "P b"
proof (cases t)
  case (NamedType n k r)
  with assms(2) have b: "b \<in> set_type_kind k" by simp
  from assms(1) NamedType have ok: "kindOk P k" by simp
  show ?thesis
  proof (cases k)
    case (ObjectType ifs fs)
    with ok have "membersOk P ifs" "fieldsOk P fs" by (simp_all add: kindOk_def)
    then show ?thesis using b ObjectType
      by (auto dest: membersOk_set fieldsOk_set)
  next
    case (InterfaceType ifs fs)
    with ok have "membersOk P ifs" "fieldsOk P fs" by (simp_all add: kindOk_def)
    then show ?thesis using b InterfaceType
      by (auto dest: membersOk_set fieldsOk_set)
  next
    case (UnionType ts)
    with ok have "membersOk P ts" by (simp_all add: kindOk_def)
    then show ?thesis using b UnionType by (auto dest: membersOk_set)
  next
    case (InputObjectType fs)
    with ok have "argsOk P fs" by (simp_all add: kindOk_def)
    then show ?thesis using b InputObjectType by (auto dest: argsOk_set)
  qed (use b in simp_all)
qed

lemma typeName_append: "a < length h \<Longrightarrow> typeName (h @ news) a = typeName h a"
  by (simp add: typeName_def nth_append)

lemma viewType_append:
  assumes "pred_named_type (\<lambda>b. b < length h) t"
  shows "viewType (h @ news) t = viewType h t"
  unfolding viewType_def
proof (rule named_type.map_cong [OF refl])
  fix b assume "b \<in> set_named_type t"
  with assms have "b < length h" by (simp add: named_type.pred_set)
  then show "typeName (h @ news) b = typeName h b" by (rule typeName_append)
qed

lemma inIndex_typeIndex: "inIndex (typeIndex lc isIntro h s) = (\<lambda>b. b \<in> set (newAddrs lc isIntro h s))"
proof -
  have "snd ` set (typeIndex lc isIntro h s) = set (map snd (typeIndex lc isIntro h s))" by simp
  also have "\<dots> = set (newAddrs lc isIntro h s)"
    unfolding typeIndex_def by (simp add: length_newAddrs)
  finally show ?thesis by (simp add: inIndex_def fun_eq_iff)
qed

lemma sort_types:
  assumes wf: "wellFormed isIntro h s"
    and eq: "lexicographicSortSchema lc isIntro h s = Inr (h', s')"
  shows "\<exists>objs. h' = h @ objs \<and> length objs = length (rebuilt isIntro h (sortedTypes lc h s))"
    and "schema_types s' = newAddrs lc isIntro h s"
    and "schema_rest s' = schema_rest s"
    and "resolves h (typeIndex lc isIntro h s) h' (\<lambda>b. b \<in> set (schema_types s))"
    and "list_all2 (\<lambda>a a'. isReplacement lc isIntro h h' a a' \<and>
            (passes isIntro (h ! a) \<or> kindOk (\<lambda>b. b \<in> set (schema_types s')) (kind (h' ! a'))))
           (sortedTypes lc h s) (schema_types s')"
    and "list_all2 (\<lambda>d d'. viewDirective h' d' = specDirective lc (viewDirective h d) \<and>
            argsOk (\<lambda>b. b \<in> set (schema_types s')) (directive_args d'))
           (sortByName (directives s) directive_name lc) (directives s')"
    and "query s' = replaceMaybeType h (typeIndex lc isIntro h s) (query s)"
    and "mutation s' = replaceMaybeType h (typeIndex lc isIntro h s) (mutation s)"
    and "subscription s' = replaceMaybeType h (typeIndex lc isIntro h s) (subscription s)"
proof -
  let ?tm = "typeIndex lc isIntro h s"
  let ?rb = "rebuilt isIntro h (sortedTypes lc h s)"
  let ?P = "\<lambda>b. b \<in> set (schema_types s)"
  note wfD = wellFormedD [OF wf]
  from sort_explicit [OF wf, of lc] eq obtain objs ds where
    h': "h' = h @ objs"
    and s': "s' = SchemaConfig (newAddrs lc isIntro h s) ds
             (replaceMaybeType h ?tm (query s)) (replaceMaybeType h ?tm (mutation s))
             (replaceMaybeType h ?tm (subscription s)) (schema_rest s)"
    and all: "list_all2 (\<lambda>a t'. construct lc h (h ! a) ?tm = Inr t') ?rb objs"
    and dsall: "list_all2 (\<lambda>d d'. sortDirective lc h ?tm d = Inr d')
                  (sortByName (directives s) directive_name lc) ds"
    and res: "resolves h ?tm (h @ objs) ?P"
    by auto
  have len: "length objs = length ?rb" using all by (simp add: list_all2_lengthD)
  show "\<exists>objs. h' = h @ objs \<and> length objs = length ?rb" using h' len by blast
  show types: "schema_types s' = newAddrs lc isIntro h s" by (simp add: s')
  show "schema_rest s' = schema_rest s" by (simp add: s')
  show "resolves h ?tm h' ?P" using res h' by simp
  show "query s' = replaceMaybeType h ?tm (query s)"
    "mutation s' = replaceMaybeType h ?tm (mutation s)"
    "subscription s' = replaceMaybeType h ?tm (subscription s)" by (simp_all add: s')
  have idx: "inIndex ?tm = (\<lambda>b. b \<in> set (schema_types s'))"
    by (simp add: inIndex_typeIndex types)
  show "list_all2 (\<lambda>a a'. isReplacement lc isIntro h h' a a' \<and>
            (passes isIntro (h ! a) \<or> kindOk (\<lambda>b. b \<in> set (schema_types s')) (kind (h' ! a'))))
           (sortedTypes lc h s) (schema_types s')"
  proof (rule list_all2_all_nthI)
    show "length (sortedTypes lc h s) = length (schema_types s')"
      by (simp add: types length_newAddrs)
  next
    fix i assume i: "i < length (sortedTypes lc h s)"
    let ?a = "sortedTypes lc h s ! i"
    let ?a' = "schema_types s' ! i"
    have a': "?a' = assignAddrs isIntro h (length h) (sortedTypes lc h s) ! i"
      by (simp add: types newAddrs_def)
    have mem: "?a \<in> set (schema_types s)" using i by (metis nth_mem set_sortedTypes)
    show "isReplacement lc isIntro h h' ?a ?a' \<and>
            (passes isIntro (h ! ?a) \<or> kindOk (\<lambda>b. b \<in> set (schema_types s')) (kind (h' ! ?a')))"
    proof (cases "passes isIntro (h ! ?a)")
      case True
      then have "?a' = ?a" using assignAddrs_nth [OF i, of isIntro h "length h"] a' by simp
      moreover have "?a < length h" using wfD(1) mem by blast
      ultimately show ?thesis using True by (simp add: isReplacement_def h' nth_append)
    next
      case False
      let ?j = "?a' - length h"
      from assignAddrs_nth [OF i, of isIntro h "length h"] False a'
      have ge: "length h \<le> ?a'" and j: "?j < length ?rb" and r: "?rb ! ?j = ?a" by simp_all
      have obj: "h' ! ?a' = objs ! ?j" using ge by (simp add: h' nth_append)
      have c: "construct lc h (h ! ?a) ?tm = Inr (objs ! ?j)"
        using all j r by (auto simp: list_all2_conv_all_nth)
      have "kindOk ?P (kind (h ! ?a))" using wfD(5) mem False by blast
      from construct_view [OF res this, of lc] c
      have "viewType (h @ objs) (objs ! ?j) = specType lc (viewType h (h ! ?a))"
        and "kindOk (inIndex ?tm) (kind (objs ! ?j))" by auto
      then show ?thesis using False ge j len obj
        by (simp add: isReplacement_def idx h')
    qed
  qed
  show "list_all2 (\<lambda>d d'. viewDirective h' d' = specDirective lc (viewDirective h d) \<and>
            argsOk (\<lambda>b. b \<in> set (schema_types s')) (directive_args d'))
           (sortByName (directives s) directive_name lc) (directives s')"
  proof -
    have "list_all2 (\<lambda>d d'. viewDirective h' d' = specDirective lc (viewDirective h d) \<and>
            argsOk (\<lambda>b. b \<in> set (schema_types s')) (directive_args d'))
           (sortByName (directives s) directive_name lc) ds"
    proof (rule list.rel_mono_strong [OF dsall])
      fix d d' assume "d \<in> set (sortByName (directives s) directive_name lc)"
        and d': "sortDirective lc h ?tm d = Inr d'"
      then have "argsOk ?P (directive_args d)" using wfD(6) by (simp add: sortByName_def set_sortBy)
      from sortDirective_view [OF res this, of lc] d'
      show "viewDirective h' d' = specDirective lc (viewDirective h d) \<and>
            argsOk (\<lambda>b. b \<in> set (schema_types s')) (directive_args d')"
        by (auto simp: idx h')
    qed
    then show ?thesis by (simp add: s')
  qed
qed

lemma ordered_specObjMap: "consistent lc \<Longrightarrow> ordered lc (objectKeys (specObjMap lc m))"
  unfolding objectKeys_def specObjMap_def by (rule ordered_sortBy)

lemma specObjMap_idem: "consistent lc \<Longrightarrow> specObjMap lc (specObjMap lc m) = specObjMap lc m"
  unfolding specObjMap_def by (rule sortBy_idem)

lemma specField_idem: "consistent lc \<Longrightarrow> specField lc (specField lc f) = specField lc f"
  by (simp add: specField_def specObjMap_idem)

lemma objectKeys_specFields: "objectKeys (specFields lc m) = objectKeys (specObjMap lc m)"
  by (simp add: specFields_def objectKeys_def comp_def case_prod_beta)

lemma orderedFields_specFields: "consistent lc \<Longrightarrow> orderedFields lc (specFields lc m)"
  unfolding orderedFields_def objectKeys_specFields
  by (auto simp: ordered_specObjMap specFields_def objectValues_def list_all_iff specField_def)

lemma specFields_idem:
  assumes "consistent lc"
  shows "specFields lc (specFields lc m) = specFields lc m"
proof -
  let ?g = "\<lambda>(k, f). (k, specField lc f)"
  have "sortBy (map ?g (sortBy m fst lc)) fst lc = map ?g (sortBy (sortBy m fst lc) fst lc)"
    by (rule sortBy_map) (simp add: case_prod_beta)
  also have "\<dots> = map ?g (sortBy m fst lc)" by (simp add: sortBy_idem [OF assms])
  finally have "specFields lc (specFields lc m) = map ?g (map ?g (sortBy m fst lc))"
    by (simp add: specFields_def specObjMap_def)
  also have "\<dots> = map ?g (sortBy m fst lc)"
    by (simp add: case_prod_beta specField_idem [OF assms])
  finally show ?thesis by (simp add: specFields_def specObjMap_def)
qed

lemma orderedKind_specKind: "consistent lc \<Longrightarrow> orderedKind lc (specKind lc k)"
  by (cases k)
    (simp_all add: orderedKind_def specKind_def ordered_sortBy orderedFields_specFields
      ordered_specObjMap)

lemma specKind_idem: "consistent lc \<Longrightarrow> specKind lc (specKind lc k) = specKind lc k"
  by (cases k) (simp_all add: specKind_def sortBy_idem specFields_idem specObjMap_idem)

lemma specType_idem: "consistent lc \<Longrightarrow> specType lc (specType lc t) = specType lc t"
  by (simp add: specType_def specKind_idem)

lemma specDirective_idem: "consistent lc \<Longrightarrow> specDirective lc (specDirective lc d) = specDirective lc d"
  by (simp add: specDirective_def sortBy_idem specObjMap_idem)

lemma orderedDirective_specDirective: "consistent lc \<Longrightarrow> orderedDirective lc (specDirective lc d)"
  using ordered_sortBy [of lc "\<lambda>x. x" "locations d"]
  by (simp add: orderedDirective_def specDirective_def ordered_specObjMap)

lemma orderedDirective_view: "orderedDirective lc (viewDirective h d) = orderedDirective lc d"
  by (cases d) (simp add: orderedDirective_def viewDirective_def objectKeys_def comp_def)

lemma sameFieldNames_specFields: "sameFieldNames m (specFields lc m)"
proof -
  let ?n = "\<lambda>(k, f). (k, mset (objectKeys (field_args f)))"
  have "map ?n (specFields lc m) = map ?n (sortBy m fst lc)"
    by (simp add: specFields_def specObjMap_def specField_def objectKeys_def case_prod_beta mset_sortBy)
  then have "mset (map ?n (specFields lc m)) = mset (map ?n m)"
    by (simp add: mset_sortBy)
  then show ?thesis by (simp add: sameFieldNames_def)
qed

lemma sameNamesKind_specKind: "sameNamesKind k (specKind lc k)"
  by (cases k)
    (simp_all add: sameNamesKind_def specKind_def mset_sortBy sameFieldNames_specFields
      specObjMap_def objectKeys_def)

lemma sameNamesType_specType: "sameNamesType t (specType lc t)"
  by (simp add: sameNamesType_def specType_def sameNamesKind_specKind)

lemma sameNamesKind_refl: "sameNamesKind k k"
  by (cases k) (simp_all add: sameNamesKind_def sameFieldNames_def)

lemma sameNamesType_refl: "sameNamesType t t"
  by (simp add: sameNamesType_def sameNamesKind_refl)

lemma viewDirective_sel:
  "directive_name (viewDirective h d) = directive_name d"
  "locations (viewDirective h d) = locations d"
  "objectKeys (directive_args (viewDirective h d)) = objectKeys (directive_args d)"
  by (cases d; simp add: viewDirective_def objectKeys_def comp_def)+

lemma sameNamesDirective_view:
  assumes "viewDirective h' d' = specDirective lc (viewDirective h d)"
  shows "sameNamesDirective d d'"
proof -
  have "directive_name (viewDirective h' d') = directive_name (specDirective lc (viewDirective h d))"
    "locations (viewDirective h' d') = locations (specDirective lc (viewDirective h d))"
    "objectKeys (directive_args (viewDirective h' d')) =
       objectKeys (directive_args (specDirective lc (viewDirective h d)))"
    using assms by simp_all
  then have "directive_name d' = directive_name d"
    "locations d' = sortBy (locations d) (\<lambda>x. x) lc"
    "objectKeys (directive_args d') = objectKeys (specObjMap lc (directive_args (viewDirective h d)))"
    by (simp_all add: viewDirective_sel specDirective_def)
  moreover have "mset (objectKeys (specObjMap lc (directive_args (viewDirective h d)))) =
      mset (objectKeys (directive_args d))"
  proof -
    have "mset (objectKeys (specObjMap lc (directive_args (viewDirective h d)))) =
        mset (objectKeys (directive_args (viewDirective h d)))"
      by (simp add: specObjMap_def objectKeys_def mset_sortBy)
    then show ?thesis by (simp only: viewDirective_sel)
  qed
  ultimately show ?thesis by (simp add: sameNamesDirective_def mset_sortBy)
qed

lemma sort_succeeds:
  "wellFormed isIntro h s \<Longrightarrow> \<exists>h' s'. lexicographicSortSchema lc isIntro h s = Inr (h', s')"
  using sort_explicit [of isIntro h s lc] by blast

lemma name_viewType: "name (viewType h t) = name t"
  by (cases t) (simp add: viewType_def)

lemma isReplacement_name: "isReplacement lc isIntro h h' a a' \<Longrightarrow> typeName h' a' = typeName h a"
proof (cases "passes isIntro (h ! a)")
  case True
  assume "isReplacement lc isIntro h h' a a'"
  with True show ?thesis by (auto simp: isReplacement_def typeName_def)
next
  case False
  assume "isReplacement lc isIntro h h' a a'"
  with False have "viewType h' (h' ! a') = specType lc (viewType h (h ! a))"
    by (simp add: isReplacement_def)
  then have "name (viewType h' (h' ! a')) = name (specType lc (viewType h (h ! a)))" by simp
  then show ?thesis by (simp add: name_viewType specType_def typeName_def)
qed

lemma sort_names:
  assumes "wellFormed isIntro h s" and "lexicographicSortSchema lc isIntro h s = Inr (h', s')"
  shows "map (typeName h') (schema_types s') = map (typeName h) (sortedTypes lc h s)"
proof -
  have "list_all2 (\<lambda>a a'. typeName h a = typeName h' a') (sortedTypes lc h s) (schema_types s')"
    by (rule list.rel_mono_strong [OF sort_types(5) [OF assms]]) (auto dest: isReplacement_name)
  then show ?thesis
    by (simp add: list_all2_conv_all_nth list_eq_iff_nth_eq)
qed

lemma distinct_sortedTypes:
  assumes "wellFormed isIntro h s"
  shows "distinct (sortedTypes lc h s)"
proof -
  have "distinct (map (typeName h) (sortedTypes lc h s))"
    using wellFormedD(2) [OF assms] by (simp add: distinct_names_sortedTypes)
  then show ?thesis by (simp add: distinct_map)
qed

lemma sort_distinct:
  assumes "wellFormed isIntro h s" and "lexicographicSortSchema lc isIntro h s = Inr (h', s')"
  shows "distinct (schema_types s')"
  unfolding sort_types(2) [OF assms] newAddrs_def
  by (rule distinct_assignAddrs [OF distinct_sortedTypes [OF assms(1)]])
    (use wellFormedD(1) [OF assms(1)] in \<open>simp add: set_sortedTypes\<close>)

lemma getType_member:
  assumes "distinct (map (typeName h) (schema_types s))" and "a \<in> set (schema_types s)"
  shows "getType h s (typeName h a) = Some a"
  unfolding getType_def using assms
proof (induction "schema_types s" arbitrary: s)
  case Nil
  then show ?case by simp
next
  case (Cons x xs)
  from Cons.hyps(2) [symmetric] Cons.prems have d: "distinct (map (typeName h) xs)"
    and nx: "typeName h x \<notin> typeName h ` set xs" and a: "a = x \<or> a \<in> set xs" by auto
  show ?case
  proof (cases "a = x")
    case True
    then show ?thesis using Cons.hyps(2) [symmetric] by simp
  next
    case False
    with a have ax: "a \<in> set xs" by simp
    then have "typeName h x \<noteq> typeName h a" using nx by (metis image_eqI)
    moreover have "find (\<lambda>b. typeName h b = typeName h a) xs = Some a"
      using Cons.hyps(1) [of "SchemaConfig xs [] None None None []"] d ax by simp
    ultimately show ?thesis using Cons.hyps(2) [symmetric] by simp
  qed
qed

lemma sort_in_range:
  assumes "wellFormed isIntro h s" and "lexicographicSortSchema lc isIntro h s = Inr (h', s')"
    and "a' \<in> set (schema_types s')"
  shows "a' < length h'"
proof -
  from assms(3) obtain i where i: "i < length (schema_types s')" and a': "schema_types s' ! i = a'"
    by (auto simp: in_set_conv_nth)
  let ?a = "sortedTypes lc h s ! i"
  have len: "length (sortedTypes lc h s) = length (schema_types s')"
    using sort_types(5) [OF assms(1,2)] by (rule list_all2_lengthD)
  have rep: "isReplacement lc isIntro h h' ?a a'"
    using sort_types(5) [OF assms(1,2)] i a' by (auto simp: list_all2_conv_all_nth)
  have "?a \<in> set (schema_types s)" using i len by (metis nth_mem set_sortedTypes)
  then have "?a < length h" using wellFormedD(1) [OF assms(1)] by blast
  moreover from sort_types(1) [OF assms(1,2)] have "length h \<le> length h'" by auto
  ultimately show ?thesis using rep by (auto simp: isReplacement_def split: if_splits)
qed

lemma replaceMaybeType_root:
  assumes "resolves h tm h' P" and "rootOk P r"
  shows "map_option (typeName h') (replaceMaybeType h tm r) = map_option (typeName h) r"
    and "rootOk (inIndex tm) (replaceMaybeType h tm r)"
    and "replaceMaybeType h tm r = None \<longleftrightarrow> r = None"
proof -
  have "map_option (typeName h') (replaceMaybeType h tm r) = map_option (typeName h) r \<and>
        rootOk (inIndex tm) (replaceMaybeType h tm r) \<and>
        (replaceMaybeType h tm r = None \<longleftrightarrow> r = None)"
  proof (cases r)
    case None
    then show ?thesis by (simp add: replaceMaybeType_def rootOk_def)
  next
    case (Some a)
    with assms(2) have "P a" by (simp add: rootOk_def)
    from resolvesD [OF assms(1) this] obtain b' where
      "replaceNamedType h tm a = Some b'" "typeName h' b' = typeName h a" "inIndex tm b'" by blast
    then show ?thesis using Some by (simp add: replaceMaybeType_def rootOk_def)
  qed
  then show "map_option (typeName h') (replaceMaybeType h tm r) = map_option (typeName h) r"
    and "rootOk (inIndex tm) (replaceMaybeType h tm r)"
    and "replaceMaybeType h tm r = None \<longleftrightarrow> r = None" by simp_all
qed

lemma sort_wellFormed:
  assumes wf: "wellFormed isIntro h s"
    and eq: "lexicographicSortSchema lc isIntro h s = Inr (h', s')"
  shows "wellFormed isIntro h' s'"
proof -
  note wfD = wellFormedD [OF wf]
  note st = sort_types [OF wf eq]
  let ?P' = "\<lambda>b. b \<in> set (schema_types s')"
  have idx: "inIndex (typeIndex lc isIntro h s) = ?P'"
    by (simp add: inIndex_typeIndex st(2))
  have names: "map (typeName h') (schema_types s') = map (typeName h) (sortedTypes lc h s)"
    by (rule sort_names [OF wf eq])
  have 1: "list_all (\<lambda>a. a < length h') (schema_types s')"
    using sort_in_range [OF wf eq] by (simp add: list_all_iff)
  have 2: "distinct (map (typeName h') (schema_types s'))"
    using wfD(2) by (simp add: names distinct_names_sortedTypes)
  have "set (map (typeName h') (schema_types s')) = typeName h ` set (schema_types s)"
    by (simp add: names set_sortedTypes)
  then have "typeName h' ` set (schema_types s') = typeName h ` set (schema_types s)" by simp
  then have 3: "list_all (\<lambda>a. \<not> isArrayIndex (typeName h' a)) (schema_types s')"
    using wfD(3) unfolding list_all_iff by (metis image_iff)
  have 4: "list_all (\<lambda>a. if passes isIntro (h' ! a)
                     then pred_named_type (\<lambda>b. b < length h') (h' ! a)
                     else kindOk ?P' (kind (h' ! a))) (schema_types s')"
    unfolding list_all_iff
  proof
    fix a' assume a': "a' \<in> set (schema_types s')"
    then obtain i where i: "i < length (schema_types s')" and ai: "schema_types s' ! i = a'"
      by (auto simp: in_set_conv_nth)
    let ?a = "sortedTypes lc h s ! i"
    have len: "length (sortedTypes lc h s) = length (schema_types s')"
      using st(5) by (rule list_all2_lengthD)
    have rep: "isReplacement lc isIntro h h' ?a a'"
      and ok: "passes isIntro (h ! ?a) \<or> kindOk ?P' (kind (h' ! a'))"
      using st(5) i ai by (auto simp: list_all2_conv_all_nth)
    have mem: "?a \<in> set (schema_types s)" using i len by (metis nth_mem set_sortedTypes)
    from st(1) have le: "length h \<le> length h'" by auto
    show "if passes isIntro (h' ! a') then pred_named_type (\<lambda>b. b < length h') (h' ! a')
          else kindOk ?P' (kind (h' ! a'))"
    proof (cases "passes isIntro (h ! ?a)")
      case True
      with rep have same: "a' = ?a" "h' ! a' = h ! ?a" by (auto simp: isReplacement_def)
      from wfD(4) mem True have "pred_named_type (\<lambda>b. b < length h) (h ! ?a)" by blast
      then have "pred_named_type (\<lambda>b. b < length h') (h ! ?a)"
        by (rule named_type.pred_mono_strong) (use le in simp)
      then show ?thesis using True same by simp
    next
      case False
      with ok have k: "kindOk ?P' (kind (h' ! a'))" by simp
      have "pred_named_type (\<lambda>b. b < length h') (h' ! a')"
        unfolding named_type.pred_set
      proof
        fix b assume "b \<in> set_named_type (h' ! a')"
        from kindOk_set [OF k this] show "b < length h'" by (rule sort_in_range [OF wf eq])
      qed
      with k show ?thesis by simp
    qed
  qed
  have 5: "list_all (\<lambda>d. argsOk ?P' (directive_args d)) (directives s')"
    unfolding list_all_iff
  proof
    fix d' assume "d' \<in> set (directives s')"
    then obtain i where "i < length (directives s')" "directives s' ! i = d'"
      by (auto simp: in_set_conv_nth)
    then show "argsOk ?P' (directive_args d')"
      using st(6) by (auto simp: list_all2_conv_all_nth)
  qed
  have 6: "rootOk ?P' (query s')" "rootOk ?P' (mutation s')" "rootOk ?P' (subscription s')"
    using replaceMaybeType_root(2) [OF st(4) wfD(7)] replaceMaybeType_root(2) [OF st(4) wfD(8)]
      replaceMaybeType_root(2) [OF st(4) wfD(9)]
    by (simp_all add: st(7,8,9) idx)
  show ?thesis
    unfolding wellFormed_def Let_def using 1 2 3 4 5 6 by simp
qed

lemma sort_lookup:
  assumes wf: "wellFormed isIntro h s"
    and eq: "lexicographicSortSchema lc isIntro h s = Inr (h', s')"
    and a: "a \<in> set (schema_types s)"
  shows "\<exists>a'. replaceNamedType h (typeIndex lc isIntro h s) a = Some a' \<and>
           a' \<in> set (schema_types s') \<and>
           getType h' s' (typeName h a) = Some a' \<and>
           isReplacement lc isIntro h h' a a' \<and>
           (passes isIntro (h ! a) \<or> kindOk (\<lambda>b. b \<in> set (schema_types s')) (kind (h' ! a')))"
proof -
  note st = sort_types [OF wf eq]
  from a have "a \<in> set (sortedTypes lc h s)" by (simp add: set_sortedTypes)
  then obtain i where i: "i < length (sortedTypes lc h s)" and ai: "sortedTypes lc h s ! i = a"
    by (auto simp: in_set_conv_nth)
  let ?a' = "schema_types s' ! i"
  have len: "length (sortedTypes lc h s) = length (schema_types s')"
    using st(5) by (rule list_all2_lengthD)
  have mem: "?a' \<in> set (schema_types s')" using i len by simp
  have rep: "isReplacement lc isIntro h h' a ?a'"
    and ok: "passes isIntro (h ! a) \<or> kindOk (\<lambda>b. b \<in> set (schema_types s')) (kind (h' ! ?a'))"
    using st(5) i ai by (auto simp: list_all2_conv_all_nth)
  have d: "distinct (map (typeName h) (sortedTypes lc h s))"
    using wellFormedD(2) [OF wf] by (simp add: distinct_names_sortedTypes)
  have "map_of (zip (map (typeName h) (sortedTypes lc h s)) (newAddrs lc isIntro h s))
          (map (typeName h) (sortedTypes lc h s) ! i) = Some (newAddrs lc isIntro h s ! i)"
    by (rule map_of_zip_nth) (use i d in \<open>simp_all add: length_newAddrs\<close>)
  then have 1: "replaceNamedType h (typeIndex lc isIntro h s) a = Some ?a'"
    using i ai by (simp add: replaceNamedType_def typeIndex_def st(2))
  have "distinct (map (typeName h') (schema_types s'))"
    using d by (simp add: sort_names [OF wf eq])
  from getType_member [OF this mem] have 2: "getType h' s' (typeName h a) = Some ?a'"
    by (simp add: isReplacement_name [OF rep])
  from 1 2 mem rep ok show ?thesis by blast
qed

lemma isReplacement_view:
  assumes wf: "wellFormed isIntro h s"
    and eq: "lexicographicSortSchema lc isIntro h s = Inr (h', s')"
    and a: "a \<in> set (schema_types s)"
    and rep: "isReplacement lc isIntro h h' a a'"
  shows "viewType h' (h' ! a') =
           (if passes isIntro (h ! a) then viewType h (h ! a) else specType lc (viewType h (h ! a)))"
proof (cases "passes isIntro (h ! a)")
  case True
  from sort_types(1) [OF wf eq] obtain objs where h': "h' = h @ objs" by blast
  from wellFormedD(4) [OF wf] a True have "pred_named_type (\<lambda>b. b < length h) (h ! a)" by blast
  then have "viewType h' (h ! a) = viewType h (h ! a)" unfolding h' by (rule viewType_append)
  then show ?thesis using True rep by (auto simp: isReplacement_def)
next
  case False
  then show ?thesis using rep by (simp add: isReplacement_def)
qed

lemma length_filter_mset: "mset xs = mset ys \<Longrightarrow> length (filter P xs) = length (filter P ys)"
proof -
  assume "mset xs = mset ys"
  then have "size (filter_mset P (mset xs)) = size (filter_mset P (mset ys))" by simp
  then show ?thesis by (simp only: mset_filter [symmetric] size_mset)
qed

lemma sort_length:
  assumes wf: "wellFormed isIntro h s"
    and eq: "lexicographicSortSchema lc isIntro h s = Inr (h', s')"
  shows "length h' = length h + length (filter (\<lambda>a. \<not> passes isIntro (h ! a)) (schema_types s))"
proof -
  from sort_types(1) [OF wf eq] obtain objs where
    "h' = h @ objs" "length objs = length (rebuilt isIntro h (sortedTypes lc h s))" by blast
  moreover have "length (rebuilt isIntro h (sortedTypes lc h s)) =
      length (filter (\<lambda>a. \<not> passes isIntro (h ! a)) (schema_types s))"
    unfolding rebuilt_def by (rule length_filter_mset) (rule mset_sortedTypes)
  ultimately show ?thesis by simp
qed

lemma sort_frame:
  assumes "lexicographicSortSchema lc isIntro h s = Inr (h', s')"
  shows "\<exists>objs. h' = h @ objs"
  using assms unfolding lexicographicSortSchema_def
  by (auto simp: bindE_Inr_iff)

lemma ordered_sort_names:
  assumes wf: "wellFormed isIntro h s" and c: "consistent lc"
    and eq: "lexicographicSortSchema lc isIntro h s = Inr (h', s')"
  shows "ordered lc (map (typeName h') (schema_types s'))"
  unfolding sort_names [OF wf eq] sortedTypes_def sortByName_def
  by (rule ordered_sortBy [OF c])

lemma sort_directive_names:
  assumes wf: "wellFormed isIntro h s"
    and eq: "lexicographicSortSchema lc isIntro h s = Inr (h', s')"
  shows "map directive_name (directives s') = map directive_name (sortByName (directives s) directive_name lc)"
proof -
  have "list_all2 (\<lambda>d d'. directive_name d = directive_name d')
          (sortByName (directives s) directive_name lc) (directives s')"
    by (rule list.rel_mono_strong [OF sort_types(6) [OF wf eq]])
      (auto dest: sameNamesDirective_view simp: sameNamesDirective_def)
  then show ?thesis by (simp add: list_all2_conv_all_nth list_eq_iff_nth_eq)
qed

lemma wellFormed_example: "wellFormed exampleIsIntrospectionType exampleHeap exampleSchema"
  by (simp add: wellFormed_def exampleIsIntrospectionType_def exampleHeap_def exampleSchema_def
      passes_def isScalarType_def kindOk_def membersOk_def fieldsOk_def argsOk_def objMapOk_def
      objectKeys_def objectValues_def rootOk_def typeName_def isArrayIndex_def isDigit_def)

lemma sort_example:
  "lexicographicSortSchema codePointCompare exampleIsIntrospectionType exampleHeap exampleSchema =
     Inr (sortedExampleHeap, sortedExampleSchema)"
  by code_simp

lemma sort_dangling:
  "lexicographicSortSchema codePointCompare exampleIsIntrospectionType danglingHeap danglingSchema =
     Inr (danglingHeap @
            [NamedType ''Query'' (ObjectType [] [(''ghost'', FieldConfig Undefined [] '''')]) ''''],
          SchemaConfig [2] [] (Some 2) None None '''')"
  by code_simp

lemma dangling_names_absent: "namesAbsentType danglingHeap danglingSchema"
  by (simp add: namesAbsentType_def danglingHeap_def danglingSchema_def typeName_def)

lemma sort_again:
  assumes wf: "wellFormed isIntro h s" and c: "consistent lc"
    and eq1: "lexicographicSortSchema lc isIntro h s = Inr (h', s')"
    and eq2: "lexicographicSortSchema lc isIntro h' s' = Inr (h'', s'')"
  shows "viewSchema h'' s'' = viewSchema h' s'"
proof -
  note wf' = sort_wellFormed [OF wf eq1]
  note st1 = sort_types [OF wf eq1]
  note st2 = sort_types [OF wf' eq2]
  have A: "sortedTypes lc h' s' = schema_types s'"
    unfolding sortedTypes_def sortByName_def
    by (rule sortBy_ordered_id) (rule ordered_sort_names [OF wf c eq1])
  have len1: "length (sortedTypes lc h s) = length (schema_types s')"
    using st1(5) by (rule list_all2_lengthD)
  have len2: "length (schema_types s') = length (schema_types s'')"
    using st2(5) unfolding A by (rule list_all2_lengthD)
  have B: "map (\<lambda>a. viewType h'' (h'' ! a)) (schema_types s'') =
           map (\<lambda>a. viewType h' (h' ! a)) (schema_types s')"
  proof (rule nth_equalityI)
    show "length (map (\<lambda>a. viewType h'' (h'' ! a)) (schema_types s'')) =
          length (map (\<lambda>a. viewType h' (h' ! a)) (schema_types s'))" using len2 by simp
  next
    fix i assume "i < length (map (\<lambda>a. viewType h'' (h'' ! a)) (schema_types s''))"
    then have i: "i < length (schema_types s')" using len2 by simp
    let ?a = "sortedTypes lc h s ! i"
    let ?a' = "schema_types s' ! i"
    let ?a'' = "schema_types s'' ! i"
    have mem: "?a \<in> set (schema_types s)" using i len1 by (metis nth_mem set_sortedTypes)
    have mem': "?a' \<in> set (schema_types s')" using i by simp
    have r1: "isReplacement lc isIntro h h' ?a ?a'"
      using st1(5) i len1 by (auto simp: list_all2_conv_all_nth)
    have r2: "isReplacement lc isIntro h' h'' ?a' ?a''"
      using st2(5) i unfolding A by (auto simp: list_all2_conv_all_nth)
    note v1 = isReplacement_view [OF wf eq1 mem r1]
    note v2 = isReplacement_view [OF wf' eq2 mem' r2]
    have "viewType h'' (h'' ! ?a'') = viewType h' (h' ! ?a')"
    proof (cases "passes isIntro (h' ! ?a')")
      case True
      with v2 show ?thesis by simp
    next
      case False
      have "\<not> passes isIntro (h ! ?a)"
      proof
        assume "passes isIntro (h ! ?a)"
        with r1 have "h' ! ?a' = h ! ?a" by (auto simp: isReplacement_def)
        with \<open>passes isIntro (h ! ?a)\<close> False show False by simp
      qed
      with v1 have "viewType h' (h' ! ?a') = specType lc (viewType h (h ! ?a))" by simp
      then have "specType lc (viewType h' (h' ! ?a')) = viewType h' (h' ! ?a')"
        by (simp add: specType_idem [OF c])
      with v2 False show ?thesis by simp
    qed
    then show "map (\<lambda>a. viewType h'' (h'' ! a)) (schema_types s'') ! i =
               map (\<lambda>a. viewType h' (h' ! a)) (schema_types s') ! i"
      using i len2 by simp
  qed
  have "ordered lc (map directive_name (directives s'))"
    unfolding sort_directive_names [OF wf eq1] sortByName_def
    by (rule ordered_sortBy [OF c])
  then have D: "sortByName (directives s') directive_name lc = directives s'"
    unfolding sortByName_def by (rule sortBy_ordered_id)
  have dlen1: "length (sortByName (directives s) directive_name lc) = length (directives s')"
    using st1(6) by (rule list_all2_lengthD)
  have dlen2: "length (directives s') = length (directives s'')"
    using st2(6) unfolding D by (rule list_all2_lengthD)
  have C: "map (viewDirective h'') (directives s'') = map (viewDirective h') (directives s')"
  proof (rule nth_equalityI)
    show "length (map (viewDirective h'') (directives s'')) = length (map (viewDirective h') (directives s'))"
      using dlen2 by simp
  next
    fix i assume "i < length (map (viewDirective h'') (directives s''))"
    then have i: "i < length (directives s')" using dlen2 by simp
    have "viewDirective h' (directives s' ! i) =
        specDirective lc (viewDirective h (sortByName (directives s) directive_name lc ! i))"
      using st1(6) i dlen1 by (auto simp: list_all2_conv_all_nth)
    then have "specDirective lc (viewDirective h' (directives s' ! i)) = viewDirective h' (directives s' ! i)"
      by (simp add: specDirective_idem [OF c])
    moreover have "viewDirective h'' (directives s'' ! i) =
        specDirective lc (viewDirective h' (directives s' ! i))"
      using st2(6) i unfolding D by (auto simp: list_all2_conv_all_nth)
    ultimately show "map (viewDirective h'') (directives s'') ! i = map (viewDirective h') (directives s') ! i"
      using i dlen2 by simp
  qed
  have R: "map_option (typeName h'') (query s'') = map_option (typeName h') (query s')"
    "map_option (typeName h'') (mutation s'') = map_option (typeName h') (mutation s')"
    "map_option (typeName h'') (subscription s'') = map_option (typeName h') (subscription s')"
    using replaceMaybeType_root(1) [OF st2(4) wellFormedD(7) [OF wf']]
      replaceMaybeType_root(1) [OF st2(4) wellFormedD(8) [OF wf']]
      replaceMaybeType_root(1) [OF st2(4) wellFormedD(9) [OF wf']]
    by (simp_all add: st2(7,8,9))
  show ?thesis unfolding viewSchema_def using B C R by simp
qed

lemma sortObjMapInStore_loop_frame:
  assumes "sortObjMapInStore_loop st m f keys n = Inr st'" and "m < n" and "n < length st"
  shows "length st' = length st \<and> take n st' = take n st \<and>
         sortObjMap_loop (st ! m) f keys (st ! n) = Inr (st' ! n)"
  using assms
proof (induction keys arbitrary: st)
  case Nil
  then show ?case by simp
next
  case (Cons k keys)
  from Cons.prems(1) obtain val v where val: "map_of (st ! m) k = Some val"
    and v: "(case f of Some g \<Rightarrow> g val | None \<Rightarrow> Inr val) = Inr v"
    and rest: "sortObjMapInStore_loop (st[n := setProperty (st ! n) k v]) m f keys n = Inr st'"
    by (auto simp: bindE_Inr_iff split: option.splits)
  let ?st1 = "st[n := setProperty (st ! n) k v]"
  from Cons.IH [OF rest Cons.prems(2)] Cons.prems(3)
  have "length st' = length ?st1" "take n st' = take n ?st1"
    "sortObjMap_loop (?st1 ! m) f keys (?st1 ! n) = Inr (st' ! n)" by simp_all
  moreover have "?st1 ! m = st ! m" using Cons.prems(2) by simp
  moreover have "?st1 ! n = setProperty (st ! n) k v" using Cons.prems(3) by simp
  ultimately show ?case using val v by simp
qed

lemma sortObjMapInStore_frame:
  assumes "sortObjMapInStore st m f lc = Inr (st', r)" and "m < length st"
  shows "take (length st) st' = st \<and> r = length st \<and> sortObjMap (st ! m) f lc = Inr (st' ! r)"
proof -
  let ?keys = "sortBy (objectKeys (st ! m)) (\<lambda>x. x) lc"
  from assms(1) have r: "r = length st"
    and loop: "sortObjMapInStore_loop (st @ [[]]) m f ?keys (length st) = Inr st'"
    by (auto simp: sortObjMapInStore_def Let_def bindE_Inr_iff)
  from sortObjMapInStore_loop_frame [OF loop assms(2)]
  have "take (length st) st' = take (length st) (st @ [[]])"
    and "sortObjMap_loop ((st @ [[]]) ! m) f ?keys ((st @ [[]]) ! length st) = Inr (st' ! length st)"
    by simp_all
  then show ?thesis using r assms(2) by (simp add: sortObjMap_def Let_def nth_append)
qed




lemma mapE_fails: "x \<in> set xs \<Longrightarrow> f x = Inl e \<Longrightarrow> \<exists>e'. mapE f xs = Inl e'"
proof (induction xs)
  case Nil
  then show ?case by simp
next
  case (Cons a xs)
  show ?case
  proof (cases "f a")
    case (Inl e')
    then show ?thesis by simp
  next
    case (Inr y)
    then have "x \<noteq> a" using Cons.prems(2) by auto
    then have "x \<in> set xs" using Cons.prems(1) by simp
    from Cons.IH [OF this Cons.prems(2)] obtain e' where "mapE f xs = Inl e'" by blast
    then show ?thesis using Inr by simp
  qed
qed

lemma set_propertyValues:
  "set (propertyValues m) = {v. \<exists>key\<in>set (objectKeys m). map_of m key = Some v}"
  unfolding propertyValues_def List.map_filter_def by force

lemma sortObjMap_loop_fails:
  assumes "key \<in> set keys" and "map_of m key = Some v" and "f v = Inl e"
  shows "\<exists>e'. sortObjMap_loop m (Some f) keys acc = Inl e'"
  using assms(1)
proof (induction keys arbitrary: acc)
  case Nil
  then show ?case by simp
next
  case (Cons k keys)
  show ?case
  proof (cases "map_of m k")
    case None
    then show ?thesis by simp
  next
    case (Some val)
    show ?thesis
    proof (cases "f val")
      case (Inl e')
      then show ?thesis using Some by simp
    next
      case (Inr val')
      then have "k \<noteq> key" using Some assms(2,3) by auto
      then have "key \<in> set keys" using Cons.prems by simp
      from Cons.IH [OF this, of "setProperty acc k val'"] show ?thesis using Some Inr by simp
    qed
  qed
qed

lemma sortObjMap_fails:
  assumes "v \<in> set (propertyValues m)" and "f v = Inl e"
  shows "\<exists>e'. sortObjMap m (Some f) lc = Inl e'"
proof -
  from assms(1) obtain key where "key \<in> set (objectKeys m)" and "map_of m key = Some v"
    by (auto simp: set_propertyValues)
  then show ?thesis
    using sortObjMap_loop_fails [of key "sortBy (objectKeys m) (\<lambda>x. x) lc" m v f e "[]"] assms(2)
    by (simp add: sortObjMap_def set_sortBy)
qed

lemma replaceType_absent:
  assumes "namedTypeOf r = Some b" and "map_of typeMap (typeName h b) = None"
  shows "if r = Named b then replaceType h typeMap r = Inr Undefined
         else replaceType h typeMap r \<in>
                {Inl (InvariantViolation ''Expected undefined to be a GraphQL type.''),
                 Inl (InvariantViolation ''Expected undefined to be a GraphQL nullable type.'')}"
  using assms(1)
proof (induction r)
  case (Named a)
  then show ?case using assms(2) by (simp add: replaceNamedType_def)
next
  case (ListT r)
  then have "namedTypeOf r = Some b" by simp
  from ListT.IH [OF this] show ?case
    by (cases "r = Named b") (auto simp: newGraphQLList_def)
next
  case (NonNullT r)
  then have "namedTypeOf r = Some b" by simp
  from NonNullT.IH [OF this] show ?case
    by (cases "r = Named b") (auto simp: newGraphQLNonNull_def)
next
  case Undefined
  then show ?case by simp
qed

lemma replaceType_wrapped_absent:
  assumes "namedTypeOf r = Some b" and "r \<noteq> Named b" and "map_of typeMap (typeName h b) = None"
  shows "\<exists>e. replaceType h typeMap r = Inl e"
  using replaceType_absent [OF assms(1,3)] assms(2) by auto

lemma sortArgs_fails:
  assumes "r \<in> set (argTypes args)" and "replaceType h tm r = Inl e"
  shows "\<exists>e'. sortArgs lc h tm args = Inl e'"
proof -
  define f where "f = (\<lambda>arg. bindE (replaceType h tm (iv_type arg))
                (\<lambda>t. Inr (InputValueConfig t (iv_rest arg))))"
  from assms(1) obtain arg where arg: "arg \<in> set (propertyValues args)" and "iv_type arg = r"
    by (auto simp: argTypes_def)
  then have "f arg = Inl e" using assms(2) by (simp add: f_def)
  with arg have "\<exists>e'. sortObjMap args (Some f) lc = Inl e'" by (rule sortObjMap_fails)
  then show ?thesis by (simp add: sortArgs_def f_def)
qed

lemma sortFields_fails:
  assumes "r \<in> set (fieldTypes flds)" and "replaceType h tm r = Inl e"
  shows "\<exists>e'. sortFields lc h tm flds = Inl e'"
proof -
  from assms(1) obtain field where field: "field \<in> set (propertyValues flds)"
    and r: "r = field_type field \<or> r \<in> set (argTypes (field_args field))"
    by (auto simp: fieldTypes_def)
  define f where "f = (\<lambda>field. bindE (replaceType h tm (field_type field))
                (\<lambda>t. bindE (sortArgs lc h tm (field_args field))
                (\<lambda>as. Inr (FieldConfig t as (field_rest field)))))"
  have "\<exists>e'. f field = Inl e'"
  proof (cases "replaceType h tm (field_type field)")
    case (Inl e')
    then show ?thesis by (simp add: f_def)
  next
    case (Inr t)
    then have "r \<in> set (argTypes (field_args field))" using r assms(2) by auto
    from sortArgs_fails [OF this assms(2), of lc] obtain e' where
      "sortArgs lc h tm (field_args field) = Inl e'" by blast
    then show ?thesis using Inr by (simp add: f_def)
  qed
  then obtain e' where "f field = Inl e'" by blast
  with field have "\<exists>e'. sortObjMap flds (Some f) lc = Inl e'" by (rule sortObjMap_fails)
  then show ?thesis by (simp add: sortFields_def f_def)
qed

lemma construct_fails:
  assumes "r \<in> set (kindRefs (kind t))" and "replaceType h tm r = Inl e"
  shows "\<exists>e'. construct lc h t tm = Inl e'"
proof (cases "kind t")
  case (ObjectType ifaces flds)
  then have "r \<in> set (fieldTypes flds)" using assms(1) by (simp add: kindRefs_def)
  from sortFields_fails [OF this assms(2), of lc] obtain e' where
    "sortFields lc h tm flds = Inl e'" by blast
  then show ?thesis using ObjectType
    by (cases "sortTypes lc h tm ifaces") (simp_all add: construct_def)
next
  case (InterfaceType ifaces flds)
  then have "r \<in> set (fieldTypes flds)" using assms(1) by (simp add: kindRefs_def)
  from sortFields_fails [OF this assms(2), of lc] obtain e' where
    "sortFields lc h tm flds = Inl e'" by blast
  then show ?thesis using InterfaceType
    by (cases "sortTypes lc h tm ifaces") (simp_all add: construct_def)
next
  case (InputObjectType flds)
  then have "r \<in> set (argTypes flds)" using assms(1) by (simp add: kindRefs_def)
  from sortArgs_fails [OF this assms(2), of lc] obtain e' where
    "sortArgs lc h tm flds = Inl e'" by blast
  then show ?thesis using InputObjectType by (simp add: construct_def sortInputFields_eq)
qed (use assms(1) in \<open>simp_all add: kindRefs_def\<close>)

lemma sortDirective_fails:
  assumes "r \<in> set (argTypes (directive_args d))" and "replaceType h tm r = Inl e"
  shows "\<exists>e'. sortDirective lc h tm d = Inl e'"
proof -
  from sortArgs_fails [OF assms, of lc] obtain e' where
    "sortArgs lc h tm (directive_args d) = Inl e'" by blast
  then show ?thesis by (simp add: sortDirective_def Let_def)
qed

lemma set_insertIndexKey: "set (insertIndexKey k v m) = insert (k, v) (set m)"
  by (induction m) (auto split: if_splits)

lemma keys_setProperty: "fst ` set (setProperty m k v) = insert k (fst ` set m)"
proof (cases "k \<in> fst ` set m")
  case True
  have "fst ` set (map (\<lambda>(k', v'). if k' = k then (k', v) else (k', v')) m) = fst ` set m"
    by (induction m) auto
  then show ?thesis using True by (auto simp: setProperty_def)
next
  case False
  then show ?thesis by (auto simp: setProperty_def set_insertIndexKey)
qed

lemma keyValMap_from_keys:
  assumes "keyValMap_from as keyFn valFn m st = Inr (tm, st')"
  shows "fst ` set tm \<subseteq> fst ` set m \<union> keyFn ` set as"
  using assms
proof (induction as arbitrary: m st)
  case Nil
  then show ?case by simp
next
  case (Cons a as)
  from Cons.prems obtain v st1 where
    "keyValMap_from as keyFn valFn (setProperty m (keyFn a) v) st1 = Inr (tm, st')"
    by (auto simp: bindE_Inr_iff)
  from Cons.IH [OF this] show ?case by (auto simp: keys_setProperty)
qed

lemma keyValMap_from_pending:
  assumes "keyValMap_from as (typeName h) (sortNamedType lc isIntro h) m pending = Inr (tm, pending')"
  shows "set pending \<subseteq> set pending' \<and>
         (\<forall>a\<in>set as. \<not> passes isIntro (h ! a) \<longrightarrow> construct lc h (h ! a) \<in> set pending')"
  using assms
proof (induction as arbitrary: m pending)
  case Nil
  then show ?case by simp
next
  case (Cons a as)
  from Cons.prems obtain v p1 where
    v: "sortNamedType lc isIntro h pending a = Inr (v, p1)" and
    rest: "keyValMap_from as (typeName h) (sortNamedType lc isIntro h)
             (setProperty m (typeName h a) v) p1 = Inr (tm, pending')"
    by (auto simp: bindE_Inr_iff)
  from Cons.IH [OF rest] have ih: "set p1 \<subseteq> set pending'"
    "\<forall>a\<in>set as. \<not> passes isIntro (h ! a) \<longrightarrow> construct lc h (h ! a) \<in> set pending'"
    by simp_all
  have p1: "set pending \<subseteq> set p1"
    "\<not> passes isIntro (h ! a) \<longrightarrow> construct lc h (h ! a) \<in> set p1"
    using v by (auto simp: sortNamedType_cases split: if_splits)
  show ?case using ih p1 by auto
qed

lemma lexicographicSortSchema_fails:
  assumes kv: "keyValMap (sortByName (schema_types s) (typeName h) lc) (typeName h)
                 (sortNamedType lc isIntro h) [] = Inr (tm, pending)"
    and f: "mapE (sortDirective lc h tm) (sortByName (directives s) directive_name lc) = Inl e \<or>
            mapE (\<lambda>th. th tm) pending = Inl e"
  shows "\<exists>e'. lexicographicSortSchema lc isIntro h s = Inl e'"
proof (cases "mapE (sortDirective lc h tm) (sortByName (directives s) directive_name lc)")
  case (Inl e')
  show ?thesis unfolding lexicographicSortSchema_def kv by (simp add: Inl)
next
  case (Inr ds)
  then have "mapE (\<lambda>th. th tm) pending = Inl e" using f by simp
  then show ?thesis unfolding lexicographicSortSchema_def kv by (simp add: Inr)
qed

lemma schemaRefs_cases:
  assumes "r \<in> set (schemaRefs isIntro h s)"
  shows "(\<exists>a\<in>set (schema_types s). \<not> passes isIntro (h ! a) \<and> r \<in> set (kindRefs (kind (h ! a)))) \<or>
         (\<exists>d\<in>set (directives s). r \<in> set (argTypes (directive_args d)))"
proof -
  from assms have
    "r \<in> set (concat (map (\<lambda>a. if passes isIntro (h ! a) then [] else kindRefs (kind (h ! a)))
                         (schema_types s))) \<or>
     r \<in> set (concat (map (\<lambda>d. argTypes (directive_args d)) (directives s)))"
    unfolding schemaRefs_def set_append by (rule UnE) simp_all
  then show ?thesis
  proof
    assume "r \<in> set (concat (map (\<lambda>a. if passes isIntro (h ! a) then [] else kindRefs (kind (h ! a)))
                         (schema_types s)))"
    then obtain a where a: "a \<in> set (schema_types s)"
      and r: "r \<in> set (if passes isIntro (h ! a) then [] else kindRefs (kind (h ! a)))"
      unfolding set_concat set_map by blast
    have np: "\<not> passes isIntro (h ! a)"
    proof
      assume "passes isIntro (h ! a)"
      with r show False by simp
    qed
    with r have "r \<in> set (kindRefs (kind (h ! a)))" by simp
    with a np show ?thesis by blast
  next
    assume "r \<in> set (concat (map (\<lambda>d. argTypes (directive_args d)) (directives s)))"
    then obtain d where "d \<in> set (directives s)" "r \<in> set (argTypes (directive_args d))"
      unfolding set_concat set_map by blast
    then show ?thesis by blast
  qed
qed

lemma sort_fails_wrapped_absent:
  assumes "r \<noteq> Named b"
    and "r \<in> set (schemaRefs isIntro h s)"
    and "namedTypeOf r = Some b"
    and "typeName h b \<notin> typeName h ` set (schema_types s)"
  shows "\<exists>e. lexicographicSortSchema lc isIntro h s = Inl e"
proof (cases "keyValMap (sortByName (schema_types s) (typeName h) lc) (typeName h)
                (sortNamedType lc isIntro h) []")
  case (Inl e)
  show ?thesis unfolding lexicographicSortSchema_def Inl by simp
next
  case (Inr res)
  obtain tm pending where res: "res = (tm, pending)" by (cases res)
  have kv0: "keyValMap (sortByName (schema_types s) (typeName h) lc) (typeName h)
                (sortNamedType lc isIntro h) [] = Inr (tm, pending)"
    using Inr res by simp
  then have kv: "keyValMap_from (sortedTypes lc h s) (typeName h) (sortNamedType lc isIntro h) [] [] =
              Inr (tm, pending)"
    by (simp add: keyValMap_def sortedTypes_def)
  from keyValMap_from_keys [OF kv] have "fst ` set tm \<subseteq> typeName h ` set (schema_types s)"
    by (simp add: set_sortedTypes)
  then have "typeName h b \<notin> fst ` set tm" using assms(4) by blast
  then have "map_of tm (typeName h b) = None" by (simp add: map_of_eq_None_iff)
  from replaceType_wrapped_absent [OF assms(3,1) this] obtain e where
    e: "replaceType h tm r = Inl e" by blast
  from schemaRefs_cases [OF assms(2)] show ?thesis
  proof
    assume "\<exists>a\<in>set (schema_types s). \<not> passes isIntro (h ! a) \<and> r \<in> set (kindRefs (kind (h ! a)))"
    then obtain a where a: "a \<in> set (schema_types s)" "\<not> passes isIntro (h ! a)"
      "r \<in> set (kindRefs (kind (h ! a)))" by blast
    from keyValMap_from_pending [OF kv] a(1,2)
    have mem: "construct lc h (h ! a) \<in> set pending" by (simp add: set_sortedTypes)
    from construct_fails [OF a(3) e, of lc] obtain e' where
      e': "construct lc h (h ! a) tm = Inl e'" by blast
    have "\<exists>e''. mapE (\<lambda>th. th tm) pending = Inl e''"
      using mem by (rule mapE_fails) (rule e')
    then obtain e'' where "mapE (\<lambda>th. th tm) pending = Inl e''" by blast
    then have "mapE (sortDirective lc h tm) (sortByName (directives s) directive_name lc) = Inl e'' \<or>
            mapE (\<lambda>th. th tm) pending = Inl e''" by simp
    with kv0 show ?thesis by (rule lexicographicSortSchema_fails)
  next
    assume "\<exists>d\<in>set (directives s). r \<in> set (argTypes (directive_args d))"
    then obtain d where d: "d \<in> set (directives s)" "r \<in> set (argTypes (directive_args d))"
      by blast
    from sortDirective_fails [OF d(2) e, of lc] obtain e' where
      e': "sortDirective lc h tm d = Inl e'" by blast
    have "d \<in> set (sortByName (directives s) directive_name lc)"
      using d(1) by (simp add: sortByName_def set_sortBy)
    then have "\<exists>e''. mapE (sortDirective lc h tm) (sortByName (directives s) directive_name lc) = Inl e''"
      by (rule mapE_fails) (rule e')
    then obtain e'' where
      "mapE (sortDirective lc h tm) (sortByName (directives s) directive_name lc) = Inl e''" by blast
    then have "mapE (sortDirective lc h tm) (sortByName (directives s) directive_name lc) = Inl e'' \<or>
            mapE (\<lambda>th. th tm) pending = Inl e''" by simp
    with kv0 show ?thesis by (rule lexicographicSortSchema_fails)
  qed
qed

text \<open>
  C1, as the code has it: a reference that names a type absent from the schema's type set
  is reported when it stands under a list or non-null wrapper, and only then. Let a type
  reference that \<^verbatim>\<open>lexicographicSortSchema\<close> rewrites (\<open>schemaRefs\<close>) name, under its
  wrappers, a type whose name is not the name of a type of the schema (whose types have
  distinct names, as the types of a schema do).
  \<^item> If the reference is wrapped, \<^verbatim>\<open>lexicographicSortSchema\<close> does not return a schema:
    it raises.
  \<^item> For every index that has no key of that name, \<^verbatim>\<open>replaceType\<close> returns
    \<^verbatim>\<open>undefined\<close> for the bare reference, without raising, and raises the invariant
    violation of the innermost wrapper's constructor for a wrapped one.
\<close>

theorem absent_name_reported_under_wrapper:
  assumes "distinct (map (typeName h) (schema_types s))"
    and "r \<in> set (schemaRefs isIntrospectionType h s)"
    and "namedTypeOf r = Some b"
    and "typeName h b \<notin> typeName h ` set (schema_types s)"
  shows "(r \<noteq> Named b \<longrightarrow> (\<exists>e. lexicographicSortSchema lc isIntrospectionType h s = Inl e)) \<and>
         (\<forall>typeMap. map_of typeMap (typeName h b) = None \<longrightarrow>
            (if r = Named b then replaceType h typeMap r = Inr Undefined
             else replaceType h typeMap r \<in>
                    {Inl (InvariantViolation ''Expected undefined to be a GraphQL type.''),
                     Inl (InvariantViolation ''Expected undefined to be a GraphQL nullable type.'')}))"
proof (rule conjI)
  show "r \<noteq> Named b \<longrightarrow> (\<exists>e. lexicographicSortSchema lc isIntrospectionType h s = Inl e)"
  proof
    assume "r \<noteq> Named b"
    then show "\<exists>e. lexicographicSortSchema lc isIntrospectionType h s = Inl e"
      using assms(2-4) by (rule sort_fails_wrapped_absent)
  qed
next
  show "\<forall>typeMap. map_of typeMap (typeName h b) = None \<longrightarrow>
          (if r = Named b then replaceType h typeMap r = Inr Undefined
           else replaceType h typeMap r \<in>
                  {Inl (InvariantViolation ''Expected undefined to be a GraphQL type.''),
                   Inl (InvariantViolation ''Expected undefined to be a GraphQL nullable type.'')})"
  proof (intro allI impI)
    fix typeMap :: "addr ObjMap"
    assume "map_of typeMap (typeName h b) = None"
    with assms(3) show "if r = Named b then replaceType h typeMap r = Inr Undefined
           else replaceType h typeMap r \<in>
                  {Inl (InvariantViolation ''Expected undefined to be a GraphQL type.''),
                   Inl (InvariantViolation ''Expected undefined to be a GraphQL nullable type.'')}"
      by (rule replaceType_absent)
  qed
qed

theorem absent_name_reported_under_wrapper_witness:
  "distinct (map (typeName wrappedDanglingHeap) (schema_types wrappedDanglingSchema)) \<and>
   NonNullT (ListT (Named 1)) \<in> set (schemaRefs exampleIsIntrospectionType wrappedDanglingHeap
                                        wrappedDanglingSchema) \<and>
   typeName wrappedDanglingHeap 1 \<notin>
     typeName wrappedDanglingHeap ` set (schema_types wrappedDanglingSchema) \<and>
   (\<exists>e. lexicographicSortSchema codePointCompare exampleIsIntrospectionType wrappedDanglingHeap
          wrappedDanglingSchema = Inl e) \<and>
   replaceType wrappedDanglingHeap [(''Query'', 2)] (NonNullT (ListT (Named 1))) =
     Inl (InvariantViolation ''Expected undefined to be a GraphQL type.'') \<and>
   replaceType danglingHeap [(''Query'', 2)] (Named 1) = Inr Undefined"
proof -
  have w: "distinct (map (typeName wrappedDanglingHeap) (schema_types wrappedDanglingSchema))"
    "NonNullT (ListT (Named 1)) \<in> set (schemaRefs exampleIsIntrospectionType wrappedDanglingHeap
                                         wrappedDanglingSchema)"
    "namedTypeOf (NonNullT (ListT (Named (1::nat)))) = Some 1"
    "typeName wrappedDanglingHeap 1 \<notin>
       typeName wrappedDanglingHeap ` set (schema_types wrappedDanglingSchema)"
    by (simp_all add: wrappedDanglingHeap_def wrappedDanglingSchema_def typeName_def schemaRefs_def
        kindRefs_def fieldTypes_def argTypes_def propertyValues_def objectKeys_def
        passes_def isScalarType_def exampleIsIntrospectionType_def)
  have d: "distinct (map (typeName danglingHeap) (schema_types danglingSchema))"
    "Named 1 \<in> set (schemaRefs exampleIsIntrospectionType danglingHeap danglingSchema)"
    "namedTypeOf (Named (1::nat)) = Some 1"
    "typeName danglingHeap 1 \<notin> typeName danglingHeap ` set (schema_types danglingSchema)"
    by (simp_all add: danglingHeap_def danglingSchema_def typeName_def schemaRefs_def
        kindRefs_def fieldTypes_def argTypes_def propertyValues_def objectKeys_def
        passes_def isScalarType_def exampleIsIntrospectionType_def)
  have n: "map_of [(''Query'', 2::nat)] (typeName wrappedDanglingHeap 1) = None"
    "map_of [(''Query'', 2::nat)] (typeName danglingHeap 1) = None"
    by (simp_all add: wrappedDanglingHeap_def danglingHeap_def typeName_def)
  from absent_name_reported_under_wrapper [OF w, of codePointCompare] n(1)
  have "(\<exists>e. lexicographicSortSchema codePointCompare exampleIsIntrospectionType wrappedDanglingHeap
               wrappedDanglingSchema = Inl e)"
    and "replaceType wrappedDanglingHeap [(''Query'', 2)] (NonNullT (ListT (Named 1))) \<in>
           {Inl (InvariantViolation ''Expected undefined to be a GraphQL type.''),
            Inl (InvariantViolation ''Expected undefined to be a GraphQL nullable type.'')}"
    by simp_all
  moreover have "replaceType wrappedDanglingHeap [(''Query'', 2)] (NonNullT (ListT (Named 1))) \<noteq>
      Inl (InvariantViolation ''Expected undefined to be a GraphQL nullable type.'')"
    by (simp add: replaceNamedType_def newGraphQLList_def newGraphQLNonNull_def
        wrappedDanglingHeap_def typeName_def)
  moreover from absent_name_reported_under_wrapper [OF d, of codePointCompare] n(2)
  have "replaceType danglingHeap [(''Query'', 2)] (Named 1) = Inr Undefined"
    by simp
  ultimately show ?thesis using w(1,2,4) by simp
qed

text \<open>
  C1 as stated fails: the schema \<open>danglingSchema\<close> has a field whose type names a type
  that is not in the type set, and \<^verbatim>\<open>lexicographicSortSchema\<close> returns a schema in which
  the type of that field is \<^verbatim>\<open>undefined\<close>.
\<close>

theorem absent_reference_counterexample:
  "namesAbsentType danglingHeap danglingSchema \<and>
   lexicographicSortSchema codePointCompare exampleIsIntrospectionType danglingHeap danglingSchema =
     Inr (danglingHeap @
            [NamedType ''Query'' (ObjectType [] [(''ghost'', FieldConfig Undefined [] '''')]) ''''],
          SchemaConfig [2] [] (Some 2) None None '''')"
  using dangling_names_absent sort_dangling by simp

subsection \<open>C2\<close>

text \<open>
  C2: on a well-formed schema, cycles or not, \<^verbatim>\<open>lexicographicSortSchema\<close> returns. It
  constructs one new object for each type that is not passed through and no other; the
  types of the output are distinct objects with distinct names, each the replacement of
  the type at the same place of the sorted input; and every reference held by a rebuilt
  type is the instance the output schema holds under the name of the referenced type.
\<close>

theorem cyclic_schema_sorted_once:
  assumes "wellFormed isIntrospectionType h s"
  shows "\<exists>h' s'. lexicographicSortSchema lc isIntrospectionType h s = Inr (h', s') \<and>
           length h' = length h +
             length (filter (\<lambda>a. \<not> passes isIntrospectionType (h ! a)) (schema_types s)) \<and>
           distinct (schema_types s') \<and> distinct (map (typeName h') (schema_types s')) \<and>
           list_all2 (isReplacement lc isIntrospectionType h h')
             (sortByName (schema_types s) (typeName h) lc) (schema_types s') \<and>
           (\<forall>a'\<in>set (schema_types s'). length h \<le> a' \<longrightarrow>
              (\<forall>b\<in>set_named_type (h' ! a'). getType h' s' (typeName h' b) = Some b))"
proof -
  from sort_succeeds [OF assms, of lc] obtain h' s' where
    eq: "lexicographicSortSchema lc isIntrospectionType h s = Inr (h', s')" by blast
  note st = sort_types [OF assms eq]
  have dn: "distinct (map (typeName h') (schema_types s'))"
    using wellFormedD(2) [OF assms]
    by (simp add: sort_names [OF assms eq] distinct_names_sortedTypes)
  have rep: "list_all2 (isReplacement lc isIntrospectionType h h')
      (sortByName (schema_types s) (typeName h) lc) (schema_types s')"
    using st(5) unfolding sortedTypes_def by (rule list_all2_mono) simp
  have refs: "\<forall>a'\<in>set (schema_types s'). length h \<le> a' \<longrightarrow>
      (\<forall>b\<in>set_named_type (h' ! a'). getType h' s' (typeName h' b) = Some b)"
  proof (intro ballI impI)
    fix a' b assume a': "a' \<in> set (schema_types s')" and ge: "length h \<le> a'"
      and b: "b \<in> set_named_type (h' ! a')"
    from a' obtain i where i: "i < length (schema_types s')" and ai: "schema_types s' ! i = a'"
      by (auto simp: in_set_conv_nth)
    let ?a = "sortedTypes lc h s ! i"
    have len: "length (sortedTypes lc h s) = length (schema_types s')"
      using st(5) by (rule list_all2_lengthD)
    have r: "isReplacement lc isIntrospectionType h h' ?a a'"
      and ok: "passes isIntrospectionType (h ! ?a) \<or>
               kindOk (\<lambda>b. b \<in> set (schema_types s')) (kind (h' ! a'))"
      using st(5) i ai by (auto simp: list_all2_conv_all_nth)
    have "?a \<in> set (schema_types s)" using i len by (metis nth_mem set_sortedTypes)
    then have "?a < length h" using wellFormedD(1) [OF assms] by blast
    with r ge have "\<not> passes isIntrospectionType (h ! ?a)" by (auto simp: isReplacement_def)
    with ok have "kindOk (\<lambda>b. b \<in> set (schema_types s')) (kind (h' ! a'))" by simp
    from kindOk_set [OF this b] have "b \<in> set (schema_types s')" .
    from getType_member [OF dn this] show "getType h' s' (typeName h' b) = Some b" .
  qed
  from eq sort_length [OF assms eq] sort_distinct [OF assms eq] dn rep refs
  show ?thesis by blast
qed

theorem cyclic_schema_sorted_once_witness:
  "wellFormed exampleIsIntrospectionType exampleHeap exampleSchema \<and>
   lexicographicSortSchema codePointCompare exampleIsIntrospectionType exampleHeap exampleSchema =
     Inr (sortedExampleHeap, sortedExampleSchema) \<and>
   length sortedExampleHeap = length exampleHeap +
     length (filter (\<lambda>a. \<not> passes exampleIsIntrospectionType (exampleHeap ! a))
       (schema_types exampleSchema)) \<and>
   distinct (schema_types sortedExampleSchema) \<and>
   list_all2 (isReplacement codePointCompare exampleIsIntrospectionType exampleHeap sortedExampleHeap)
     (sortByName (schema_types exampleSchema) (typeName exampleHeap) codePointCompare)
     (schema_types sortedExampleSchema)"
  using cyclic_schema_sorted_once [OF wellFormed_example, of codePointCompare]
    wellFormed_example
  by (auto simp: sort_example)

subsection \<open>C3\<close>

text \<open>
  C3, as the code has it: on a well-formed schema and for a consistent comparator, the
  names of the output's type list and of its directive list never decrease, the locations
  and the argument names of every directive never decrease, and every collection of
  every type of the output that is neither a scalar nor an introspection type (its
  interface or member list, its field map and the argument map of each field, its enum
  values, its input fields) is in order. The types that are passed through keep the
  order they had.
\<close>

theorem rebuilt_collections_ordered:
  assumes "wellFormed isIntrospectionType h s" and "consistent lc"
  shows "\<exists>h' s'. lexicographicSortSchema lc isIntrospectionType h s = Inr (h', s') \<and>
           ordered lc (map (typeName h') (schema_types s')) \<and>
           ordered lc (map directive_name (directives s')) \<and>
           list_all (orderedDirective lc) (directives s') \<and>
           list_all (\<lambda>a'. passes isIntrospectionType (h' ! a') \<or>
                          orderedKind lc (kind (viewType h' (h' ! a')))) (schema_types s')"
proof -
  from sort_succeeds [OF assms(1), of lc] obtain h' s' where
    eq: "lexicographicSortSchema lc isIntrospectionType h s = Inr (h', s')" by blast
  note st = sort_types [OF assms(1) eq]
  have 1: "ordered lc (map (typeName h') (schema_types s'))"
    by (rule ordered_sort_names [OF assms eq])
  have 2: "ordered lc (map directive_name (directives s'))"
    unfolding sort_directive_names [OF assms(1) eq] sortByName_def
    by (rule ordered_sortBy [OF assms(2)])
  have 3: "list_all (orderedDirective lc) (directives s')"
    unfolding list_all_iff
  proof
    fix d' assume "d' \<in> set (directives s')"
    then obtain i where "i < length (directives s')" "directives s' ! i = d'"
      by (auto simp: in_set_conv_nth)
    with st(6) obtain d where "viewDirective h' d' = specDirective lc (viewDirective h d)"
      by (auto simp: list_all2_conv_all_nth)
    then have "orderedDirective lc (viewDirective h' d')"
      by (simp add: orderedDirective_specDirective [OF assms(2)])
    then show "orderedDirective lc d'" by (simp add: orderedDirective_view)
  qed
  have 4: "list_all (\<lambda>a'. passes isIntrospectionType (h' ! a') \<or>
                          orderedKind lc (kind (viewType h' (h' ! a')))) (schema_types s')"
    unfolding list_all_iff
  proof
    fix a' assume "a' \<in> set (schema_types s')"
    then obtain i where i: "i < length (schema_types s')" and ai: "schema_types s' ! i = a'"
      by (auto simp: in_set_conv_nth)
    let ?a = "sortedTypes lc h s ! i"
    have r: "isReplacement lc isIntrospectionType h h' ?a a'"
      using st(5) i ai by (auto simp: list_all2_conv_all_nth)
    show "passes isIntrospectionType (h' ! a') \<or> orderedKind lc (kind (viewType h' (h' ! a')))"
    proof (cases "passes isIntrospectionType (h ! ?a)")
      case True
      with r show ?thesis by (auto simp: isReplacement_def)
    next
      case False
      with r have "viewType h' (h' ! a') = specType lc (viewType h (h ! ?a))"
        by (simp add: isReplacement_def)
      then show ?thesis by (simp add: specType_def orderedKind_specKind [OF assms(2)])
    qed
  qed
  from eq 1 2 3 4 show ?thesis by blast
qed

theorem rebuilt_collections_ordered_witness:
  "wellFormed exampleIsIntrospectionType exampleHeap exampleSchema \<and>
   consistent codePointCompare \<and>
   lexicographicSortSchema codePointCompare exampleIsIntrospectionType exampleHeap exampleSchema =
     Inr (sortedExampleHeap, sortedExampleSchema) \<and>
   ordered codePointCompare (map (typeName sortedExampleHeap) (schema_types sortedExampleSchema)) \<and>
   list_all (orderedDirective codePointCompare) (directives sortedExampleSchema) \<and>
   list_all (\<lambda>a'. passes exampleIsIntrospectionType (sortedExampleHeap ! a') \<or>
                  orderedKind codePointCompare (kind (viewType sortedExampleHeap (sortedExampleHeap ! a'))))
     (schema_types sortedExampleSchema)"
  using rebuilt_collections_ordered [OF wellFormed_example consistent_codePointCompare]
    wellFormed_example consistent_codePointCompare
  by (auto simp: sort_example)

text \<open>
  C3 as stated fails: the example schema is well-formed and holds the introspection type
  \<^verbatim>\<open>__Type\<close>, whose fields \<^verbatim>\<open>kind\<close>, \<^verbatim>\<open>name\<close>, \<^verbatim>\<open>description\<close> are not in order; the
  output holds the same object, so not every field map of the output is in order.
\<close>

theorem introspection_fields_unordered_counterexample:
  "wellFormed exampleIsIntrospectionType exampleHeap exampleSchema \<and>
   consistent codePointCompare \<and>
   lexicographicSortSchema codePointCompare exampleIsIntrospectionType exampleHeap exampleSchema =
     Inr (sortedExampleHeap, sortedExampleSchema) \<and>
   \<not> list_all (\<lambda>a'. orderedKind codePointCompare (kind (viewType sortedExampleHeap (sortedExampleHeap ! a'))))
       (schema_types sortedExampleSchema)"
proof -
  have "\<not> ordered codePointCompare [''kind'', ''name'', ''description'']"
    by (simp add: ordered_def)
  then have "\<not> orderedKind codePointCompare (kind (viewType sortedExampleHeap (sortedExampleHeap ! 1)))"
    by (simp add: sortedExampleHeap_def exampleHeap_def viewType_def orderedKind_def
        orderedFields_def objectKeys_def)
  moreover have "1 \<in> set (schema_types sortedExampleSchema)"
    by (simp add: sortedExampleSchema_def)
  ultimately have "\<not> list_all (\<lambda>a'. orderedKind codePointCompare
      (kind (viewType sortedExampleHeap (sortedExampleHeap ! a')))) (schema_types sortedExampleSchema)"
    unfolding list_all_iff by blast
  then show ?thesis
    using wellFormed_example consistent_codePointCompare sort_example by simp
qed

subsection \<open>C4\<close>

text \<open>
  C4: on a well-formed schema, the output holds the same names as the input. The type
  names of the output are a rearrangement of those of the input; each type of the output
  has the name of the type at the same place of the sorted input, the same kind, and,
  collection by collection, the same names (interfaces, members, fields and the
  arguments of each field, enum values, input fields); the directives likewise, with
  their locations and argument names.
\<close>

theorem names_preserved:
  assumes "wellFormed isIntrospectionType h s"
  shows "\<exists>h' s'. lexicographicSortSchema lc isIntrospectionType h s = Inr (h', s') \<and>
           mset (map (typeName h') (schema_types s')) = mset (map (typeName h) (schema_types s)) \<and>
           mset (sortByName (schema_types s) (typeName h) lc) = mset (schema_types s) \<and>
           list_all2 (\<lambda>a a'. sameNamesType (viewType h (h ! a)) (viewType h' (h' ! a')))
             (sortByName (schema_types s) (typeName h) lc) (schema_types s') \<and>
           mset (map directive_name (directives s')) = mset (map directive_name (directives s)) \<and>
           mset (sortByName (directives s) directive_name lc) = mset (directives s) \<and>
           list_all2 sameNamesDirective (sortByName (directives s) directive_name lc) (directives s')"
proof -
  from sort_succeeds [OF assms, of lc] obtain h' s' where
    eq: "lexicographicSortSchema lc isIntrospectionType h s = Inr (h', s')" by blast
  note st = sort_types [OF assms eq]
  have 1: "mset (map (typeName h') (schema_types s')) = mset (map (typeName h) (schema_types s))"
    by (simp add: sort_names [OF assms eq] mset_sortedTypes)
  have 2: "mset (sortByName (schema_types s) (typeName h) lc) = mset (schema_types s)"
    by (simp add: sortByName_def mset_sortBy)
  have "list_all2 (\<lambda>a a'. sameNamesType (viewType h (h ! a)) (viewType h' (h' ! a')))
      (sortedTypes lc h s) (schema_types s')"
  proof (rule list.rel_mono_strong [OF st(5)])
    fix a a' assume "a \<in> set (sortedTypes lc h s)"
      and "isReplacement lc isIntrospectionType h h' a a' \<and>
        (passes isIntrospectionType (h ! a) \<or>
         kindOk (\<lambda>b. b \<in> set (schema_types s')) (kind (h' ! a')))"
    then have "a \<in> set (schema_types s)" and "isReplacement lc isIntrospectionType h h' a a'"
      by (simp_all add: set_sortedTypes)
    from isReplacement_view [OF assms eq this]
    show "sameNamesType (viewType h (h ! a)) (viewType h' (h' ! a'))"
      by (simp add: sameNamesType_refl sameNamesType_specType)
  qed
  then have 3: "list_all2 (\<lambda>a a'. sameNamesType (viewType h (h ! a)) (viewType h' (h' ! a')))
      (sortByName (schema_types s) (typeName h) lc) (schema_types s')"
    by (simp add: sortedTypes_def)
  have 4: "mset (map directive_name (directives s')) = mset (map directive_name (directives s))"
    by (simp add: sort_directive_names [OF assms eq] sortByName_def mset_sortBy)
  have 5: "mset (sortByName (directives s) directive_name lc) = mset (directives s)"
    by (simp add: sortByName_def mset_sortBy)
  have 6: "list_all2 sameNamesDirective (sortByName (directives s) directive_name lc) (directives s')"
    by (rule list.rel_mono_strong [OF st(6)]) (auto dest: sameNamesDirective_view)
  from eq 1 2 3 4 5 6 show ?thesis by blast
qed

theorem names_preserved_witness:
  "wellFormed exampleIsIntrospectionType exampleHeap exampleSchema \<and>
   lexicographicSortSchema codePointCompare exampleIsIntrospectionType exampleHeap exampleSchema =
     Inr (sortedExampleHeap, sortedExampleSchema) \<and>
   mset (map (typeName sortedExampleHeap) (schema_types sortedExampleSchema)) =
     mset (map (typeName exampleHeap) (schema_types exampleSchema)) \<and>
   list_all2 (\<lambda>a a'. sameNamesType (viewType exampleHeap (exampleHeap ! a))
                       (viewType sortedExampleHeap (sortedExampleHeap ! a')))
     (sortByName (schema_types exampleSchema) (typeName exampleHeap) codePointCompare)
     (schema_types sortedExampleSchema) \<and>
   list_all2 sameNamesDirective (sortByName (directives exampleSchema) directive_name codePointCompare)
     (directives sortedExampleSchema)"
  using names_preserved [OF wellFormed_example, of codePointCompare] wellFormed_example
  by (auto simp: sort_example)

subsection \<open>C5\<close>

text \<open>
  C5: sorting is idempotent on the by-name reading. On a well-formed schema and for a
  consistent comparator, sorting the output of \<^verbatim>\<open>lexicographicSortSchema\<close> again returns a
  schema that reads, by name, exactly as the first output: the same types in the same
  order, each with the same collections in the same order, the same directives, the same
  roots (in a heap that has grown by the objects of the second run).
\<close>

theorem sort_idempotent:
  assumes "wellFormed isIntrospectionType h s" and "consistent lc"
  shows "\<exists>h' s' h'' s''.
           lexicographicSortSchema lc isIntrospectionType h s = Inr (h', s') \<and>
           lexicographicSortSchema lc isIntrospectionType h' s' = Inr (h'', s'') \<and>
           viewSchema h'' s'' = viewSchema h' s'"
proof -
  from sort_succeeds [OF assms(1), of lc] obtain h' s' where
    eq1: "lexicographicSortSchema lc isIntrospectionType h s = Inr (h', s')" by blast
  from sort_succeeds [OF sort_wellFormed [OF assms(1) eq1], of lc] obtain h'' s'' where
    eq2: "lexicographicSortSchema lc isIntrospectionType h' s' = Inr (h'', s'')" by blast
  from sort_again [OF assms eq1 eq2] eq1 eq2 show ?thesis by blast
qed

theorem sort_idempotent_witness:
  "wellFormed exampleIsIntrospectionType exampleHeap exampleSchema \<and>
   consistent codePointCompare \<and>
   lexicographicSortSchema codePointCompare exampleIsIntrospectionType exampleHeap exampleSchema =
     Inr (sortedExampleHeap, sortedExampleSchema) \<and>
   (\<exists>h'' s''.
      lexicographicSortSchema codePointCompare exampleIsIntrospectionType sortedExampleHeap
        sortedExampleSchema = Inr (h'', s'') \<and>
      viewSchema h'' s'' = viewSchema sortedExampleHeap sortedExampleSchema)"
  using sort_idempotent [OF wellFormed_example consistent_codePointCompare]
    wellFormed_example consistent_codePointCompare
  by (auto simp: sort_example)

subsection \<open>C6\<close>

text \<open>
  C6: the input is not mutated. Whatever the schema, the heap \<^verbatim>\<open>lexicographicSortSchema\<close>
  returns is the input heap followed by new objects: every object of the input, and so
  every type with its fields, arguments, interfaces, members and values, is as it was.
  And \<^verbatim>\<open>sortBy\<close> leaves the array it is given as it was: it sorts a copy, which it
  returns; \<^verbatim>\<open>sortObjMap\<close> leaves the map it is given as it was: it fills a new map,
  which it returns.
\<close>

theorem input_not_mutated:
  "(lexicographicSortSchema lc isIntrospectionType h s = Inr (h', s') \<longrightarrow> take (length h) h' = h) \<and>
   (array < length st \<and> sortByInStore st array mapToKey lc = (st', res) \<longrightarrow>
      take (length st) st' = st \<and> st' ! array = st ! array \<and> res = length st \<and>
      st' ! res = sortBy (st ! array) mapToKey lc) \<and>
   (m < length ms \<and> sortObjMapInStore ms m sortValueFn lc = Inr (ms', r) \<longrightarrow>
      take (length ms) ms' = ms \<and> ms' ! m = ms ! m \<and> r = length ms \<and>
      sortObjMap (ms ! m) sortValueFn lc = Inr (ms' ! r))"
proof (intro conjI)
  show "lexicographicSortSchema lc isIntrospectionType h s = Inr (h', s') \<longrightarrow> take (length h) h' = h"
  proof
    assume "lexicographicSortSchema lc isIntrospectionType h s = Inr (h', s')"
    from sort_frame [OF this] show "take (length h) h' = h" by auto
  qed
next
  show "array < length st \<and> sortByInStore st array mapToKey lc = (st', res) \<longrightarrow>
      take (length st) st' = st \<and> st' ! array = st ! array \<and> res = length st \<and>
      st' ! res = sortBy (st ! array) mapToKey lc"
  proof
    assume a: "array < length st \<and> sortByInStore st array mapToKey lc = (st', res)"
    then have st': "st' = (st @ [st ! array])[length st := sortBy (st ! array) mapToKey lc]"
      and s: "res = length st"
      by (auto simp: sortByInStore_def slice_def sortInPlace_def sortBy_def)
    show "take (length st) st' = st \<and> st' ! array = st ! array \<and> res = length st \<and>
        st' ! res = sortBy (st ! array) mapToKey lc"
      using a by (simp add: st' s nth_append)
  qed
next
  show "m < length ms \<and> sortObjMapInStore ms m sortValueFn lc = Inr (ms', r) \<longrightarrow>
      take (length ms) ms' = ms \<and> ms' ! m = ms ! m \<and> r = length ms \<and>
      sortObjMap (ms ! m) sortValueFn lc = Inr (ms' ! r)"
  proof
    assume a: "m < length ms \<and> sortObjMapInStore ms m sortValueFn lc = Inr (ms', r)"
    then have f: "take (length ms) ms' = ms \<and> r = length ms \<and>
        sortObjMap (ms ! m) sortValueFn lc = Inr (ms' ! r)"
      using sortObjMapInStore_frame by blast
    then have "take (length ms) ms' ! m = ms ! m" by simp
    then have "ms' ! m = ms ! m" using a by simp
    with f show "take (length ms) ms' = ms \<and> ms' ! m = ms ! m \<and> r = length ms \<and>
      sortObjMap (ms ! m) sortValueFn lc = Inr (ms' ! r)" by simp
  qed
qed

theorem input_not_mutated_witness:
  "lexicographicSortSchema codePointCompare exampleIsIntrospectionType exampleHeap exampleSchema =
     Inr (sortedExampleHeap, sortedExampleSchema) \<and>
   take (length exampleHeap) sortedExampleHeap = exampleHeap \<and>
   sortByInStore [[''b'', ''a''], [''d'', ''c'']] 0 (\<lambda>x. x) codePointCompare =
     ([[''b'', ''a''], [''d'', ''c''], [''a'', ''b'']], 2) \<and>
   sortObjMapInStore [[(''b'', ''x''), (''a'', ''y'')]] 0 None codePointCompare =
     Inr ([[(''b'', ''x''), (''a'', ''y'')], [(''a'', ''y''), (''b'', ''x'')]], 1)"
proof -
  have 1: "sortByInStore [[''b'', ''a''], [''d'', ''c'']] 0 (\<lambda>x. x) codePointCompare =
     ([[''b'', ''a''], [''d'', ''c''], [''a'', ''b'']], 2)" by code_simp
  have 2: "sortObjMapInStore [[(''b'', ''x''), (''a'', ''y'')]] 0 None codePointCompare =
     Inr ([[(''b'', ''x''), (''a'', ''y'')], [(''a'', ''y''), (''b'', ''x'')]], 1)" by code_simp
  from input_not_mutated [of codePointCompare exampleIsIntrospectionType exampleHeap exampleSchema
      sortedExampleHeap sortedExampleSchema 0 "[[''b'', ''a''], [''d'', ''c'']]" "\<lambda>x. x"
      "[[''b'', ''a''], [''d'', ''c''], [''a'', ''b'']]" 2
      0 "[[(''b'', ''x''), (''a'', ''y'')]]" None
      "[[(''b'', ''x''), (''a'', ''y'')], [(''a'', ''y''), (''b'', ''x'')]]" 1]
  show ?thesis using sort_example 1 2 by simp
qed

subsection \<open>C7\<close>

text \<open>
  C7: on a well-formed schema and for a consistent comparator, the instance the output
  schema holds under the name of an input type is the replacement of that type. For a
  scalar or introspection type it is the same object, unchanged in the heap; for every
  other type it is a new object (its address is not one of the input heap) that reads,
  by name, as the input type with every collection sorted, and its collections are in
  order.
\<close>

theorem passthrough_and_rebuild:
  assumes "wellFormed isIntrospectionType h s" and "consistent lc"
  shows "\<exists>h' s'. lexicographicSortSchema lc isIntrospectionType h s = Inr (h', s') \<and>
           (\<forall>a\<in>set (schema_types s).
              \<exists>a'. getType h' s' (typeName h a) = Some a' \<and>
                   isReplacement lc isIntrospectionType h h' a a' \<and>
                   (passes isIntrospectionType (h ! a) \<or>
                    orderedKind lc (kind (viewType h' (h' ! a')))))"
proof -
  from sort_succeeds [OF assms(1), of lc] obtain h' s' where
    eq: "lexicographicSortSchema lc isIntrospectionType h s = Inr (h', s')" by blast
  have "\<forall>a\<in>set (schema_types s).
      \<exists>a'. getType h' s' (typeName h a) = Some a' \<and>
           isReplacement lc isIntrospectionType h h' a a' \<and>
           (passes isIntrospectionType (h ! a) \<or> orderedKind lc (kind (viewType h' (h' ! a'))))"
  proof
    fix a assume a: "a \<in> set (schema_types s)"
    from sort_lookup [OF assms(1) eq a] obtain a' where
      g: "getType h' s' (typeName h a) = Some a'"
      and r: "isReplacement lc isIntrospectionType h h' a a'" by blast
    have "passes isIntrospectionType (h ! a) \<or> orderedKind lc (kind (viewType h' (h' ! a')))"
    proof (cases "passes isIntrospectionType (h ! a)")
      case True
      then show ?thesis by simp
    next
      case False
      with r have "viewType h' (h' ! a') = specType lc (viewType h (h ! a))"
        by (simp add: isReplacement_def)
      then show ?thesis by (simp add: specType_def orderedKind_specKind [OF assms(2)])
    qed
    with g r show "\<exists>a'. getType h' s' (typeName h a) = Some a' \<and>
           isReplacement lc isIntrospectionType h h' a a' \<and>
           (passes isIntrospectionType (h ! a) \<or> orderedKind lc (kind (viewType h' (h' ! a'))))"
      by blast
  qed
  with eq show ?thesis by blast
qed

theorem passthrough_and_rebuild_witness:
  "wellFormed exampleIsIntrospectionType exampleHeap exampleSchema \<and>
   consistent codePointCompare \<and>
   lexicographicSortSchema codePointCompare exampleIsIntrospectionType exampleHeap exampleSchema =
     Inr (sortedExampleHeap, sortedExampleSchema) \<and>
   getType sortedExampleHeap sortedExampleSchema ''__Type'' = Some 1 \<and>
   sortedExampleHeap ! 1 = exampleHeap ! 1 \<and>
   getType sortedExampleHeap sortedExampleSchema ''Query'' = Some 14 \<and>
   isReplacement codePointCompare exampleIsIntrospectionType exampleHeap sortedExampleHeap 2 14 \<and>
   orderedKind codePointCompare (kind (viewType sortedExampleHeap (sortedExampleHeap ! 14)))"
proof -
  from passthrough_and_rebuild [OF wellFormed_example consistent_codePointCompare]
  have all: "\<forall>a\<in>set (schema_types exampleSchema).
      \<exists>a'. getType sortedExampleHeap sortedExampleSchema (typeName exampleHeap a) = Some a' \<and>
           isReplacement codePointCompare exampleIsIntrospectionType exampleHeap sortedExampleHeap a a' \<and>
           (passes exampleIsIntrospectionType (exampleHeap ! a) \<or>
            orderedKind codePointCompare (kind (viewType sortedExampleHeap (sortedExampleHeap ! a'))))"
    by (auto simp: sort_example)
  have n: "typeName exampleHeap 1 = ''__Type''" "typeName exampleHeap 2 = ''Query''"
    by (simp_all add: typeName_def exampleHeap_def)
  have g: "getType sortedExampleHeap sortedExampleSchema ''__Type'' = Some 1"
    "getType sortedExampleHeap sortedExampleSchema ''Query'' = Some 14"
    by (simp_all add: getType_def sortedExampleSchema_def sortedExampleHeap_def exampleHeap_def
        typeName_def)
  have p: "passes exampleIsIntrospectionType (exampleHeap ! 1)"
    "\<not> passes exampleIsIntrospectionType (exampleHeap ! 2)"
    by (simp_all add: passes_def exampleIsIntrospectionType_def exampleHeap_def isScalarType_def)
  have m: "1 \<in> set (schema_types exampleSchema)" "2 \<in> set (schema_types exampleSchema)"
    by (simp_all add: exampleSchema_def)
  from all m(1) n(1) g(1) p(1) have 1: "sortedExampleHeap ! 1 = exampleHeap ! 1"
    by (auto simp: isReplacement_def)
  from all m(2) n(2) g(2) p(2)
  have 2: "isReplacement codePointCompare exampleIsIntrospectionType exampleHeap sortedExampleHeap 2 14 \<and>
      orderedKind codePointCompare (kind (viewType sortedExampleHeap (sortedExampleHeap ! 14)))"
    by auto
  from 1 2 g show ?thesis
    using wellFormed_example consistent_codePointCompare sort_example by simp
qed

subsection \<open>C8\<close>

text \<open>
  C8: on a well-formed schema, each root of the output is the replacement of the
  corresponding root type of the input, and it is the very instance the output schema
  holds under the name of that type; a root that is absent in the input is absent in the
  output.
\<close>

theorem roots_rewritten:
  assumes "wellFormed isIntrospectionType h s"
  shows "\<exists>h' s'. lexicographicSortSchema lc isIntrospectionType h s = Inr (h', s') \<and>
           rootReplaced lc isIntrospectionType h h' s' (query s) (query s') \<and>
           rootReplaced lc isIntrospectionType h h' s' (mutation s) (mutation s') \<and>
           rootReplaced lc isIntrospectionType h h' s' (subscription s) (subscription s')"
proof -
  from sort_succeeds [OF assms, of lc] obtain h' s' where
    eq: "lexicographicSortSchema lc isIntrospectionType h s = Inr (h', s')" by blast
  note st = sort_types [OF assms eq]
  have root: "rootReplaced lc isIntrospectionType h h' s' r
      (replaceMaybeType h (typeIndex lc isIntrospectionType h s) r)"
    if "rootOk (\<lambda>b. b \<in> set (schema_types s)) r" for r
  proof (cases r)
    case None
    then show ?thesis by (simp add: rootReplaced_def replaceMaybeType_def)
  next
    case (Some a)
    with that have "a \<in> set (schema_types s)" by (simp add: rootOk_def)
    from sort_lookup [OF assms eq this] show ?thesis
      using Some by (auto simp: rootReplaced_def replaceMaybeType_def)
  qed
  from root [OF wellFormedD(7) [OF assms]] root [OF wellFormedD(8) [OF assms]]
    root [OF wellFormedD(9) [OF assms]] eq
  show ?thesis by (auto simp: st(7,8,9))
qed

theorem roots_rewritten_witness:
  "wellFormed exampleIsIntrospectionType exampleHeap exampleSchema \<and>
   lexicographicSortSchema codePointCompare exampleIsIntrospectionType exampleHeap exampleSchema =
     Inr (sortedExampleHeap, sortedExampleSchema) \<and>
   query exampleSchema = Some 2 \<and> query sortedExampleSchema = Some 14 \<and>
   mutation exampleSchema = None \<and> mutation sortedExampleSchema = None \<and>
   rootReplaced codePointCompare exampleIsIntrospectionType exampleHeap sortedExampleHeap
     sortedExampleSchema (query exampleSchema) (query sortedExampleSchema) \<and>
   rootReplaced codePointCompare exampleIsIntrospectionType exampleHeap sortedExampleHeap
     sortedExampleSchema (mutation exampleSchema) (mutation sortedExampleSchema)"
proof -
  have "query exampleSchema = Some 2" "query sortedExampleSchema = Some 14"
    "mutation exampleSchema = None" "mutation sortedExampleSchema = None"
    by (simp_all add: exampleSchema_def sortedExampleSchema_def)
  then show ?thesis
    using roots_rewritten [OF wellFormed_example, of codePointCompare] wellFormed_example
    by (auto simp: sort_example)
qed

subsection \<open>C9\<close>

text \<open>
  C9: \<^verbatim>\<open>sortNamedType\<close> is a total dispatch over the closed set of kinds. It raises
  exactly when the value is recognised by none of the predicates (it is not a scalar, not
  an introspection type, and none of object, interface, union, enum, input object), and
  what it raises then is the invariant violation: for a type of one of the six kinds the
  invariant is never reached, and an unrecognised value is never passed through.
\<close>

theorem sortNamedType_total_dispatch:
  "sortNamedType lc isIntrospectionType h pending a = Inl e \<longleftrightarrow>
     (\<not> isScalarType (h ! a) \<and> \<not> isIntrospectionType (h ! a) \<and> kind (h ! a) = Unrecognised \<and>
      e = InvariantViolation ''Unexpected type'')"
  unfolding sortNamedType_cases passes_def by auto

theorem sortNamedType_total_dispatch_witness:
  "sortNamedType codePointCompare (\<lambda>t. False) [NamedType ''X'' Unrecognised ''''] [] 0 =
     Inl (InvariantViolation ''Unexpected type'') \<and>
   sortNamedType codePointCompare (\<lambda>t. False)
     [NamedType ''E'' (EnumType [(''B'', ''''), (''A'', '''')]) ''''] [] 0 \<noteq> Inl TypeError"
  using sortNamedType_total_dispatch [of codePointCompare "\<lambda>t. False"
      "[NamedType ''X'' Unrecognised '''']" "[]" 0 "InvariantViolation ''Unexpected type''"]
    sortNamedType_total_dispatch [of codePointCompare "\<lambda>t. False"
      "[NamedType ''E'' (EnumType [(''B'', ''''), (''A'', '''')]) '''']" "[]" 0 TypeError]
  by (simp add: isScalarType_def)

subsection \<open>C10\<close>



end
